theory Spec2Isabelle
  imports
    Main
    "HOL-Library.Char_ord"
    "HOL-Library.List_Lexorder"
    "HOL-Library.Product_Lexorder"
    "HOL-Library.Multiset"
begin

section \<open>Exceptions\<close>

text \<open>The exceptions that the modelled statements can raise.\<close>

datatype error =
    CalledProcessError
  | JSONDecodeError
  | KeyError
  | TypeError
  | AttributeError
  | ValueError
  | ReError

section \<open>Strings\<close>

text \<open>
  A Python \<open>str\<close> is modelled as a \<open>string\<close> whose characters are the code points
  0 to 255 (Latin-1); \<open>of_char\<close> reads the code point. Within that range the decimal
  digits of \<open>\d\<close> are exactly \<open>0\<close> to \<open>9\<close>, and the characters \<open>str.strip()\<close> removes
  (those for which \<open>str.isspace()\<close> holds) are 0x09-0x0D, 0x1C-0x1F, 0x20, 0x85 and 0xA0.
  Strings are compared as Python compares them: lexicographically by code point.
\<close>

definition py_isspace :: "char \<Rightarrow> bool" where
  "py_isspace c =
     (let n = (of_char c :: nat)
      in (9 \<le> n \<and> n \<le> 13) \<or> (28 \<le> n \<and> n \<le> 32) \<or> n = 133 \<or> n = 160)"

definition py_strip :: "string \<Rightarrow> string" where
  "py_strip s = rev (dropWhile py_isspace (rev (dropWhile py_isspace s)))"

definition is_digit :: "char \<Rightarrow> bool" where
  "is_digit c = (let n = (of_char c :: nat) in 48 \<le> n \<and> n \<le> 57)"

definition digit_val :: "char \<Rightarrow> int" where
  "digit_val c = int (of_char c) - 48"

text \<open>The integer that a string of decimal digits denotes; leading zeros do not count.\<close>

definition digits_value :: "string \<Rightarrow> int" where
  "digits_value ds = foldl (\<lambda>a c. 10 * a + digit_val c) 0 ds"

text \<open>
  \<open>int(ds)\<close> on a string of decimal digits. The integer is unbounded, but the conversion
  is not: CPython refuses to convert a string of more than \<open>sys.int_info.default_max_str_digits\<close>
  = 4300 digits (leading zeros included) and raises \<open>ValueError\<close>.
\<close>

definition max_str_digits :: nat where
  "max_str_digits = 4300"

definition py_int :: "string \<Rightarrow> error + int" where
  "py_int ds = (if max_str_digits < length ds then Inl ValueError else Inr (digits_value ds))"

section \<open>The three tag patterns\<close>

text \<open>
  Without \<open>re.MULTILINE\<close>, \<open>$\<close> matches at the end of the string and also just before
  a newline that ends the string.
\<close>

definition at_dollar :: "string \<Rightarrow> bool" where
  "at_dollar r = (r = [] \<or> r = [CHR 0x0A])"

text \<open>
  \<open>re.compile(r"^v(\d+)$").match(s)\<close>, returning group 1. The group \<open>\d+\<close> is greedy; giving
  back a digit would leave a digit where \<open>$\<close> has to match, so backtracking never turns a
  failure of the longest run of digits into a match.
\<close>

definition match_vinteger :: "string \<Rightarrow> string option" where
  "match_vinteger s =
     (case s of
        [] \<Rightarrow> None
      | c # rest \<Rightarrow>
          if c = CHR ''v'' then
            (let ds = takeWhile is_digit rest; r = dropWhile is_digit rest
             in if ds \<noteq> [] \<and> at_dollar r then Some ds else None)
          else None)"

text \<open>\<open>re.compile(r"^(\d+)$").match(s)\<close>, returning group 1.\<close>

definition match_integer :: "string \<Rightarrow> string option" where
  "match_integer s =
     (let ds = takeWhile is_digit s; r = dropWhile is_digit s
      in if ds \<noteq> [] \<and> at_dollar r then Some ds else None)"

text \<open>\<open>re.compile(r"^(\d+)\.(\d+)$").match(s)\<close>, returning groups 1 and 2.\<close>

definition match_major_minor :: "string \<Rightarrow> (string \<times> string) option" where
  "match_major_minor s =
     (let ds1 = takeWhile is_digit s; r1 = dropWhile is_digit s
      in if ds1 = [] then None
         else (case r1 of
                 [] \<Rightarrow> None
               | c # r2 \<Rightarrow>
                   if c = CHR ''.'' then
                     (let ds2 = takeWhile is_digit r2; r3 = dropWhile is_digit r2
                      in if ds2 \<noteq> [] \<and> at_dollar r3 then Some (ds1, ds2) else None)
                   else None))"

definition is_vinteger :: "string \<Rightarrow> bool" where
  "is_vinteger s = (match_vinteger s \<noteq> None)"

definition is_integer :: "string \<Rightarrow> bool" where
  "is_integer s = (match_integer s \<noteq> None)"

definition is_major_minor :: "string \<Rightarrow> bool" where
  "is_major_minor s = (match_major_minor s \<noteq> None)"

section \<open>Selecting the latest version tag\<close>

text \<open>
  \<open>xs.sort(reverse=True, key=k)\<close>. Python's sort is stable also when reversed: elements
  with equal keys keep their original order. (CPython reverses the list, sorts it
  stably in ascending order and reverses it again.) \<open>sort_key\<close> is a stable insertion sort.
\<close>

definition py_sort_reverse :: "('a \<Rightarrow> 'k::linorder) \<Rightarrow> 'a list \<Rightarrow> 'a list" where
  "py_sort_reverse k xs = rev (sort_key k (rev xs))"

text \<open>
  The three loops of \<open>get_latest_version_tag\<close> that collect the candidates. Each matching
  tag is converted by \<open>int\<close> as the loop reaches it, so the first conversion that fails
  ends the function with its exception.
\<close>

fun vinteger_tags :: "string list \<Rightarrow> error + (int \<times> string) list" where
  "vinteger_tags [] = Inr []"
| "vinteger_tags (tag # tags) =
     (case match_vinteger (py_strip tag) of
        None \<Rightarrow> vinteger_tags tags
      | Some g \<Rightarrow>
          (case py_int g of
             Inl e \<Rightarrow> Inl e
           | Inr n \<Rightarrow>
               (case vinteger_tags tags of
                  Inl e \<Rightarrow> Inl e
                | Inr rest \<Rightarrow> Inr ((n, py_strip tag) # rest))))"

fun integer_tags :: "string list \<Rightarrow> error + (int \<times> string) list" where
  "integer_tags [] = Inr []"
| "integer_tags (tag # tags) =
     (case match_integer (py_strip tag) of
        None \<Rightarrow> integer_tags tags
      | Some g \<Rightarrow>
          (case py_int g of
             Inl e \<Rightarrow> Inl e
           | Inr n \<Rightarrow>
               (case integer_tags tags of
                  Inl e \<Rightarrow> Inl e
                | Inr rest \<Rightarrow> Inr ((n, py_strip tag) # rest))))"

fun major_minor_tags :: "string list \<Rightarrow> error + (int \<times> int \<times> string) list" where
  "major_minor_tags [] = Inr []"
| "major_minor_tags (tag # tags) =
     (case match_major_minor (py_strip tag) of
        None \<Rightarrow> major_minor_tags tags
      | Some (g1, g2) \<Rightarrow>
          (case py_int g1 of
             Inl e \<Rightarrow> Inl e
           | Inr major \<Rightarrow>
               (case py_int g2 of
                  Inl e \<Rightarrow> Inl e
                | Inr minor \<Rightarrow>
                    (case major_minor_tags tags of
                       Inl e \<Rightarrow> Inl e
                     | Inr rest \<Rightarrow> Inr ((major, minor, py_strip tag) # rest)))))"

text \<open>
  The result is the exception raised, or else the selected tag (\<open>Some\<close>) or Python's
  \<open>None\<close>.
\<close>

definition get_latest_version_tag :: "string list \<Rightarrow> error + string option" where
  "get_latest_version_tag tags =
     (case vinteger_tags tags of
        Inl e \<Rightarrow> Inl e
      | Inr vs \<Rightarrow>
          if vs \<noteq> [] then Inr (Some (snd (hd (py_sort_reverse fst vs))))
          else
            (case integer_tags tags of
               Inl e \<Rightarrow> Inl e
             | Inr ns \<Rightarrow>
                 if ns \<noteq> [] then Inr (Some (snd (hd (py_sort_reverse fst ns))))
                 else
                   (case major_minor_tags tags of
                      Inl e \<Rightarrow> Inl e
                    | Inr ms \<Rightarrow>
                        if ms \<noteq> [] then
                          Inr (Some (snd (snd (hd (py_sort_reverse (\<lambda>x. (fst x, fst (snd x))) ms)))))
                        else Inr None)))"

section \<open>Values received from the API\<close>

text \<open>
  What \<open>json.loads\<close> returns. A dict is the list of its items in insertion order (its keys
  are pairwise distinct in every value Python builds). Of a float only its being nonzero
  is kept, which is all that the two page loops can observe of it (its truth value); the
  main run has no rule for a repository whose name is a float.
\<close>

datatype json =
    JNull
  | JBool bool
  | JInt int
  | JFloat (nonzero: bool)
  | JStr string
  | JArr "json list"
  | JObj "(string \<times> json) list"

text \<open>
  The URL built by the f-strings of \<open>fetch_repos\<close> and \<open>fetch_tags\<close>, by its variable parts:
  \<open>{GITHUB_API_URL}/orgs/{org}/repos?per_page={per_page}&page={page}\<close> and
  \<open>{GITHUB_API_URL}/repos/{org}/{repo_name}/tags?per_page={per_page}&page={page}\<close>.
\<close>

datatype url =
    ReposUrl (url_org: string) (url_per_page: nat) (url_page: nat)
  | TagsUrl (url_org: string) (url_repo: string) (url_per_page: nat) (url_page: nat)

text \<open>
  The transport: \<open>subprocess.run(["curl", ...], check=True)\<close> followed by \<open>json.loads\<close> of its
  output. \<open>Inl\<close> is the exception either of them raises. The answer is taken to depend on
  the URL alone; within one loop every URL is requested at most once.
\<close>

type_synonym transport = "url \<Rightarrow> error + json"

definition per_page :: nat where
  "per_page = 100"

text \<open>Truth value of a Python object, as \<open>not page\<close> tests it.\<close>

fun py_truthy :: "json \<Rightarrow> bool" where
  "py_truthy JNull = False"
| "py_truthy (JBool b) = b"
| "py_truthy (JInt n) = (n \<noteq> 0)"
| "py_truthy (JFloat nz) = nz"
| "py_truthy (JStr s) = (s \<noteq> [])"
| "py_truthy (JArr xs) = (xs \<noteq> [])"
| "py_truthy (JObj kvs) = (kvs \<noteq> [])"

text \<open>Iterating over an object: a dict yields its keys, a string its characters.\<close>

fun py_iter :: "json \<Rightarrow> error + json list" where
  "py_iter (JArr xs) = Inr xs"
| "py_iter (JObj kvs) = Inr (map (\<lambda>kv. JStr (fst kv)) kvs)"
| "py_iter (JStr s) = Inr (map (\<lambda>c. JStr [c]) s)"
| "py_iter _ = Inl TypeError"

fun py_len :: "json \<Rightarrow> error + nat" where
  "py_len (JArr xs) = Inr (length xs)"
| "py_len (JObj kvs) = Inr (length kvs)"
| "py_len (JStr s) = Inr (length s)"
| "py_len _ = Inl TypeError"

text \<open>\<open>x["name"]\<close>: only a dict can be indexed by a string.\<close>

fun subscript_name :: "json \<Rightarrow> error + json" where
  "subscript_name (JObj kvs) =
     (case map_of kvs ''name'' of None \<Rightarrow> Inl KeyError | Some v \<Rightarrow> Inr v)"
| "subscript_name _ = Inl TypeError"

text \<open>\<open>isinstance(page_tags, dict) and "message" in page_tags\<close>.\<close>

fun is_error_payload :: "json \<Rightarrow> bool" where
  "is_error_payload (JObj kvs) = (''message'' \<in> fst ` set kvs)"
| "is_error_payload _ = False"

text \<open>
  The generator \<open>tag["name"] for tag in page_tags\<close> consumed by \<open>tags.extend\<close>: the first
  element that cannot be indexed raises.
\<close>

fun names_of :: "json list \<Rightarrow> error + json list" where
  "names_of [] = Inr []"
| "names_of (x # xs) =
     (case subscript_name x of
        Inl e \<Rightarrow> Inl e
      | Inr n \<Rightarrow> (case names_of xs of Inl e \<Rightarrow> Inl e | Inr ns \<Rightarrow> Inr (n # ns)))"

section \<open>The two page-fetch loops\<close>

text \<open>
  Both loops are \<open>while True\<close> loops that a transport answering with full pages forever
  keeps running, so they are partial functions: \<open>None\<close> is a loop that does not return.
  Besides the result (or the exception that ended the loop) they return the URLs
  requested, in order.
\<close>

partial_function (option) fetch_repos_loop ::
  "transport \<Rightarrow> string \<Rightarrow> nat \<Rightarrow> json list \<Rightarrow> url list \<Rightarrow> ((error + json list) \<times> url list) option"
where
  "fetch_repos_loop tr org page repos log =
     (let u = ReposUrl org per_page page; log' = log @ [u] in
      case tr u of
        Inl e \<Rightarrow> Some (Inl e, log')
      | Inr page_repos \<Rightarrow>
          if \<not> py_truthy page_repos then Some (Inr repos, log')
          else (case py_iter page_repos of
                  Inl e \<Rightarrow> Some (Inl e, log')
                | Inr rs \<Rightarrow>
                    (case py_len page_repos of
                       Inl e \<Rightarrow> Some (Inl e, log')
                     | Inr n \<Rightarrow>
                         if n < per_page then Some (Inr (repos @ rs), log')
                         else fetch_repos_loop tr org (page + 1) (repos @ rs) log')))"

definition fetch_repos :: "transport \<Rightarrow> string \<Rightarrow> ((error + json list) \<times> url list) option" where
  "fetch_repos tr org = fetch_repos_loop tr org 1 [] []"

partial_function (option) fetch_tags_loop ::
  "transport \<Rightarrow> string \<Rightarrow> string \<Rightarrow> nat \<Rightarrow> json list \<Rightarrow> url list \<Rightarrow>
     ((error + json list) \<times> url list) option"
where
  "fetch_tags_loop tr org repo_name page tags log =
     (let u = TagsUrl org repo_name per_page page; log' = log @ [u] in
      case tr u of
        Inl e \<Rightarrow> Some (Inl e, log')
      | Inr page_tags \<Rightarrow>
          if is_error_payload page_tags then Some (Inr tags, log')
          else if \<not> py_truthy page_tags then Some (Inr tags, log')
          else (case py_iter page_tags of
                  Inl e \<Rightarrow> Some (Inl e, log')
                | Inr ts \<Rightarrow>
                    (case names_of ts of
                       Inl e \<Rightarrow> Some (Inl e, log')
                     | Inr ns \<Rightarrow>
                         (case py_len page_tags of
                            Inl e \<Rightarrow> Some (Inl e, log')
                          | Inr n \<Rightarrow>
                              if n < per_page then Some (Inr (tags @ ns), log')
                              else fetch_tags_loop tr org repo_name (page + 1) (tags @ ns) log'))))"

definition fetch_tags ::
  "transport \<Rightarrow> string \<Rightarrow> string \<Rightarrow> ((error + json list) \<times> url list) option" where
  "fetch_tags tr org repo_name = fetch_tags_loop tr org repo_name 1 [] []"

section \<open>Files and constants\<close>

text \<open>
  The three files the script reads and writes, as the text Python reads from them and
  writes to them; \<open>None\<close> is a file that does not exist. Failures of the file system
  itself are not modelled.
\<close>

record files =
  versions_file :: "string option"
  unversioned_file :: "string option"
  readme_file :: "string option"

definition README_START_MARKER :: string where
  "README_START_MARKER = ''<!-- VERSIONS_START -->''"

definition README_END_MARKER :: string where
  "README_END_MARKER = ''<!-- VERSIONS_END -->''"

definition ORG_NAME :: string where
  "ORG_NAME = ''actions''"

definition EXTRA_REPOS :: "string list" where
  "EXTRA_REPOS =
     [''DeLaGuardo/setup-clojure'',
      ''DeterminateSystems/determinate-nix-action'',
      ''DeterminateSystems/flake-checker-action'',
      ''DeterminateSystems/flakehub-cache-action'',
      ''DeterminateSystems/flakehub-push'',
      ''DeterminateSystems/magic-nix-cache-action'',
      ''DeterminateSystems/nix-installer-action'',
      ''docker/build-push-action'',
      ''tailscale/github-action'']"

definition newline :: string where
  "newline = [CHR 0x0A]"

section \<open>String operations of the writer\<close>

text \<open>
  \<open>str.splitlines()\<close>: within Latin-1 the line boundaries are 0x0A, 0x0B, 0x0C, 0x0D,
  0x1C, 0x1D, 0x1E and 0x85, and a carriage return followed by a line feed is one boundary.
\<close>

definition is_linebreak :: "char \<Rightarrow> bool" where
  "is_linebreak c =
     (let n = (of_char c :: nat)
      in (10 \<le> n \<and> n \<le> 13) \<or> (28 \<le> n \<and> n \<le> 30) \<or> n = 133)"

fun splitlines_from :: "string \<Rightarrow> string \<Rightarrow> string list" where
  "splitlines_from cur [] = (if cur = [] then [] else [cur])"
| "splitlines_from cur [c] =
     (if is_linebreak c then [cur] else [cur @ [c]])"
| "splitlines_from cur (c # d # cs) =
     (if c = CHR 0x0D \<and> d = CHR 0x0A then cur # splitlines_from [] cs
      else if is_linebreak c then cur # splitlines_from [] (d # cs)
      else splitlines_from (cur @ [c]) (d # cs))"

definition splitlines :: "string \<Rightarrow> string list" where
  "splitlines s = splitlines_from [] s"

definition py_rstrip :: "string \<Rightarrow> string" where
  "py_rstrip s = rev (dropWhile py_isspace (rev s))"

text \<open>\<open>sub in s\<close> for strings.\<close>

fun contains :: "string \<Rightarrow> string \<Rightarrow> bool" where
  "contains sub [] = (sub = [])"
| "contains sub (c # cs) = (take (length sub) (c # cs) = sub \<or> contains sub cs)"

text \<open>
  \<open>str.lower()\<close>: within Latin-1 the upper-case letters are A to Z and 0xC0 to 0xDE
  without the multiplication sign 0xD7; each has its lower-case form 32 places higher.
\<close>

definition py_lower_char :: "char \<Rightarrow> char" where
  "py_lower_char c =
     (let n = (of_char c :: nat)
      in if (65 \<le> n \<and> n \<le> 90) \<or> (192 \<le> n \<and> n \<le> 222 \<and> n \<noteq> 215)
         then char_of (n + 32) else c)"

definition py_lower :: "string \<Rightarrow> string" where
  "py_lower s = map py_lower_char s"

text \<open>\<open>sep.join(xs)\<close>.\<close>

fun py_join :: "string \<Rightarrow> string list \<Rightarrow> string" where
  "py_join sep [] = []"
| "py_join sep [x] = x"
| "py_join sep (x # y # zs) = x @ sep @ py_join sep (y # zs)"

text \<open>\<open>org, repo_name = full_repo.split("/", 1)\<close>: without a slash the unpacking fails.\<close>

definition split_owner_repo :: "string \<Rightarrow> error + (string \<times> string)" where
  "split_owner_repo full_repo =
     (case dropWhile (\<lambda>c. c \<noteq> CHR ''/'') full_repo of
        [] \<Rightarrow> Inl ValueError
      | _ # repo_name \<Rightarrow> Inr (takeWhile (\<lambda>c. c \<noteq> CHR ''/'') full_repo, repo_name))"

section \<open>The cache of unversioned repositories\<close>

definition load_unversioned :: "files \<Rightarrow> string set" where
  "load_unversioned fs =
     (case unversioned_file fs of
        None \<Rightarrow> {}
      | Some text \<Rightarrow> set (filter (\<lambda>l. l \<noteq> []) (map py_strip (splitlines text))))"

text \<open>
  \<open>sorted(repos)\<close> of a set of strings is the list of its elements in ascending order
  of code points; the file is opened with mode \<open>"w"\<close>, which discards what it held.
\<close>

definition unversioned_content :: "string set \<Rightarrow> string" where
  "unversioned_content repos = concat (map (\<lambda>repo_name. repo_name @ newline) (sorted_list_of_set repos))"

definition save_unversioned :: "string set \<Rightarrow> files \<Rightarrow> files" where
  "save_unversioned repos fs = fs\<lparr>unversioned_file := Some (unversioned_content repos)\<rparr>"

section \<open>Updating the README\<close>

text \<open>
  \<open>pattern.sub(new_section, readme_text)\<close> belongs to the regular-expression library and is
  a parameter \<open>re_sub\<close> of the model, taking the replacement and the text; it raises
  \<open>re.error\<close> on a replacement with a bad escape.
\<close>

type_synonym re_sub = "string \<Rightarrow> string \<Rightarrow> error + string"

definition new_section :: "string \<Rightarrow> string" where
  "new_section versions_content =
     README_START_MARKER @ newline @ ''## Latest versions'' @ newline @ newline @
     ''```'' @ newline @ versions_content @ ''```'' @ newline @ README_END_MARKER"

definition update_readme :: "re_sub \<Rightarrow> string \<Rightarrow> files \<Rightarrow> error + files" where
  "update_readme sub versions_content fs =
     (case readme_file fs of
        None \<Rightarrow> Inr fs
      | Some readme_text \<Rightarrow>
          if contains README_START_MARKER readme_text \<and> contains README_END_MARKER readme_text
          then (case sub (new_section versions_content) readme_text of
                  Inl e \<Rightarrow> Inl e
                | Inr new_readme \<Rightarrow> Inr (fs\<lparr>readme_file := Some new_readme\<rparr>))
          else Inr (fs\<lparr>readme_file :=
                 Some (py_rstrip readme_text @ newline @ newline @
                       new_section versions_content @ newline)\<rparr>))"

section \<open>Writing the results\<close>

text \<open>
  \<open>versions.sort(key=lambda x: x[0].lower())\<close> is a stable ascending sort, as \<open>sort_key\<close> is.
\<close>

definition sort_versions :: "(string \<times> string) list \<Rightarrow> (string \<times> string) list" where
  "sort_versions versions = sort_key (\<lambda>x. py_lower (fst x)) versions"

definition build_versions_content :: "(string \<times> string) list \<Rightarrow> string" where
  "build_versions_content versions =
     py_join newline (map (\<lambda>(full_repo, tag). full_repo @ ''@'' @ tag) versions) @ newline"

text \<open>
  How a run ends: it completes, or an exception leaves \<open>main\<close>. Either way the files are
  as the statements executed so far have left them.
\<close>

datatype outcome = Completed | Raised error

text \<open>The end of \<open>main\<close>: sort, write the manifest, update the README, save the cache.\<close>

definition write_outputs ::
  "re_sub \<Rightarrow> (string \<times> string) list \<Rightarrow> string set \<Rightarrow> files \<Rightarrow> outcome \<times> files" where
  "write_outputs sub versions new_unversioned fs =
     (let versions_content = build_versions_content (sort_versions versions);
          fs1 = fs\<lparr>versions_file := Some versions_content\<rparr>
      in case update_readme sub versions_content fs1 of
           Inl e \<Rightarrow> (Raised e, fs1)
         | Inr fs2 \<Rightarrow> (Completed, save_unversioned new_unversioned fs2))"

section \<open>The main run\<close>

text \<open>
  \<open>get_latest_version_tag\<close> applied to the names that \<open>fetch_tags\<close> returns, which need not
  be strings. Its first loop calls \<open>tag.strip()\<close> on every tag in turn and converts the digit
  group of each tag that matches the first pattern; so it raises \<open>AttributeError\<close> at the
  first tag that is not a string, unless a conversion has raised \<open>ValueError\<close> before. When
  the first loop gets through, all tags are strings.
\<close>

fun first_loop_strings :: "json list \<Rightarrow> error + string list" where
  "first_loop_strings [] = Inr []"
| "first_loop_strings (JStr s # xs) =
     (case match_vinteger (py_strip s) of
        None \<Rightarrow> (case first_loop_strings xs of Inl e \<Rightarrow> Inl e | Inr ss \<Rightarrow> Inr (s # ss))
      | Some g \<Rightarrow>
          (case py_int g of
             Inl e \<Rightarrow> Inl e
           | Inr n \<Rightarrow> (case first_loop_strings xs of Inl e \<Rightarrow> Inl e | Inr ss \<Rightarrow> Inr (s # ss))))"
| "first_loop_strings (_ # xs) = Inl AttributeError"

definition select_latest :: "json list \<Rightarrow> error + string option" where
  "select_latest tags =
     (case first_loop_strings tags of
        Inl e \<Rightarrow> Inl e
      | Inr ss \<Rightarrow> get_latest_version_tag ss)"

text \<open>
  The state of the two loops of \<open>main\<close>: the list \<open>versions\<close> and the set
  \<open>new_unversioned\<close>.
\<close>

type_synonym collected = "(string \<times> string) list \<times> string set"

text \<open>
  What both loops do with a repository that is not in the cache: fetch its tags and
  select the latest, \<open>fetch_tags(org, repo_name)\<close> followed by \<open>get_latest_version_tag(tags)\<close>.
\<close>

definition check_repo ::
  "transport \<Rightarrow> string \<Rightarrow> string \<Rightarrow> ((error + string option) \<times> url list) option" where
  "check_repo tr org repo_name =
     (case fetch_tags tr org repo_name of
        None \<Rightarrow> None
      | Some (Inl e, log) \<Rightarrow> Some (Inl e, log)
      | Some (Inr tags, log) \<Rightarrow> Some (select_latest tags, log))"

text \<open>The condition \<open>if latest_tag\<close>: a tag that is not the empty string.\<close>

fun has_version :: "string option \<Rightarrow> bool" where
  "has_version None = False"
| "has_version (Some latest_tag) = (latest_tag \<noteq> [])"

text \<open>
  The \<open>if latest_tag: ... else: ...\<close> at the end of both loop bodies: a version record
  for \<open>full_repo\<close>, or else the identifier \<open>ident\<close> in the new unversioned set.
\<close>

definition record_result :: "string \<Rightarrow> string \<Rightarrow> string option \<Rightarrow> collected \<Rightarrow> collected" where
  "record_result full_repo ident latest acc =
     (if has_version latest then (fst acc @ [(full_repo, the latest)], snd acc)
      else (fst acc, insert ident (snd acc)))"

text \<open>
  The body of the loop over the organization's repositories, for a repository whose
  name is the string \<open>repo_name\<close>; the cache is keyed by the bare name.
\<close>

definition process_org_repo ::
  "transport \<Rightarrow> string set \<Rightarrow> string \<Rightarrow> collected \<Rightarrow> ((error + collected) \<times> url list) option" where
  "process_org_repo tr unversioned repo_name acc =
     (if repo_name \<in> unversioned then Some (Inr (fst acc, insert repo_name (snd acc)), [])
      else
        (case check_repo tr ORG_NAME repo_name of
           None \<Rightarrow> None
         | Some (Inl e, log) \<Rightarrow> Some (Inl e, log)
         | Some (Inr latest, log) \<Rightarrow>
             Some (Inr (record_result (ORG_NAME @ ''/'' @ repo_name) repo_name latest acc), log)))"

text \<open>\<open>str(n)\<close> for an integer, which CPython refuses beyond 4300 digits.\<close>

fun nat_digits :: "nat \<Rightarrow> string" where
  "nat_digits n =
     (if n < 10 then [char_of (48 + n)]
      else nat_digits (n div 10) @ [char_of (48 + n mod 10)])"

definition py_str_int :: "int \<Rightarrow> error + string" where
  "py_str_int n =
     (let ds = nat_digits (nat \<bar>n\<bar>)
      in if max_str_digits < length ds then Inl ValueError
         else Inr (if n < 0 then CHR ''-'' # ds else ds))"

text \<open>
  How an f-string renders a name that is \<open>None\<close>, a boolean or an integer. Such a name is
  never found in the cache, whose elements are strings.
\<close>

fun scalar_text :: "json \<Rightarrow> (error + string) option" where
  "scalar_text JNull = Some (Inr ''None'')"
| "scalar_text (JBool b) = Some (Inr (if b then ''True'' else ''False''))"
| "scalar_text (JInt n) = Some (py_str_int n)"
| "scalar_text _ = None"

text \<open>
  The loop over the organization's repositories, as a relation between the list of
  records still to process, the state, the requests made so far and the result: the final
  state, or the exception that ended the loop, with all the requests made. A record
  without a name, or one that is no dict, raises in \<open>repo["name"]\<close>; a name that is a list
  or a dict raises \<open>TypeError\<close> when looked up in the cache. A name that is \<open>None\<close>, a
  boolean or an integer is rendered into the URL and into the version record. The
  relation covers the runs in which every name is a string, a list or a dict, or is such a
  scalar with a version tag; it has no rule for a name that is a float, nor for a scalar
  that is found unversioned (which Python adds to the set as it is, so that the set no
  longer holds strings only, as \<open>save_unversioned\<close> declares).
\<close>

inductive org_loop ::
  "transport \<Rightarrow> string set \<Rightarrow> json list \<Rightarrow> collected \<Rightarrow> url list \<Rightarrow>
     (error + collected) \<times> url list \<Rightarrow> bool"
  for tr :: transport and unversioned :: "string set"
where
  finished:
    "org_loop tr unversioned [] acc log (Inr acc, log)"
| subscript_raises:
    "subscript_name repo = Inl e \<Longrightarrow>
     org_loop tr unversioned (repo # repos) acc log (Inl e, log)"
| list_unhashable:
    "subscript_name repo = Inr (JArr xs) \<Longrightarrow>
     org_loop tr unversioned (repo # repos) acc log (Inl TypeError, log)"
| dict_unhashable:
    "subscript_name repo = Inr (JObj kvs) \<Longrightarrow>
     org_loop tr unversioned (repo # repos) acc log (Inl TypeError, log)"
| body_raises:
    "subscript_name repo = Inr (JStr repo_name) \<Longrightarrow>
     process_org_repo tr unversioned repo_name acc = Some (Inl e, l) \<Longrightarrow>
     org_loop tr unversioned (repo # repos) acc log (Inl e, log @ l)"
| body_continues:
    "subscript_name repo = Inr (JStr repo_name) \<Longrightarrow>
     process_org_repo tr unversioned repo_name acc = Some (Inr acc', l) \<Longrightarrow>
     org_loop tr unversioned repos acc' (log @ l) res \<Longrightarrow>
     org_loop tr unversioned (repo # repos) acc log res"
| scalar_text_raises:
    "subscript_name repo = Inr x \<Longrightarrow>
     scalar_text x = Some (Inl e) \<Longrightarrow>
     org_loop tr unversioned (repo # repos) acc log (Inl e, log)"
| scalar_raises:
    "subscript_name repo = Inr x \<Longrightarrow>
     scalar_text x = Some (Inr repo_text) \<Longrightarrow>
     check_repo tr ORG_NAME repo_text = Some (Inl e, l) \<Longrightarrow>
     org_loop tr unversioned (repo # repos) acc log (Inl e, log @ l)"
| scalar_continues:
    "subscript_name repo = Inr x \<Longrightarrow>
     scalar_text x = Some (Inr repo_text) \<Longrightarrow>
     check_repo tr ORG_NAME repo_text = Some (Inr latest, l) \<Longrightarrow>
     has_version latest \<Longrightarrow>
     org_loop tr unversioned repos
       (fst acc @ [(ORG_NAME @ ''/'' @ repo_text, the latest)], snd acc) (log @ l) res \<Longrightarrow>
     org_loop tr unversioned (repo # repos) acc log res"

text \<open>The body of the loop over the extra repositories, keyed by the full path.\<close>

definition process_extra_repo ::
  "transport \<Rightarrow> string set \<Rightarrow> string \<Rightarrow> collected \<Rightarrow> ((error + collected) \<times> url list) option" where
  "process_extra_repo tr unversioned full_repo acc =
     (case split_owner_repo full_repo of
        Inl e \<Rightarrow> Some (Inl e, [])
      | Inr (org, repo_name) \<Rightarrow>
          if full_repo \<in> unversioned then Some (Inr (fst acc, insert full_repo (snd acc)), [])
          else
            (case check_repo tr org repo_name of
               None \<Rightarrow> None
             | Some (Inl e, log) \<Rightarrow> Some (Inl e, log)
             | Some (Inr latest, log) \<Rightarrow>
                 Some (Inr (record_result full_repo full_repo latest acc), log)))"

fun process_extra_repos ::
  "transport \<Rightarrow> string set \<Rightarrow> string list \<Rightarrow> collected \<Rightarrow> url list \<Rightarrow>
     ((error + collected) \<times> url list) option" where
  "process_extra_repos tr unversioned [] acc log = Some (Inr acc, log)"
| "process_extra_repos tr unversioned (full_repo # rest) acc log =
     (case process_extra_repo tr unversioned full_repo acc of
        None \<Rightarrow> None
      | Some (Inl e, l) \<Rightarrow> Some (Inl e, log @ l)
      | Some (Inr acc', l) \<Rightarrow> process_extra_repos tr unversioned rest acc' (log @ l))"

text \<open>
  \<open>main\<close>, with the list of extra repositories as a parameter, as a relation between the
  files before the run and its result: how the run ended, the files after it and the
  URLs requested, in order. An exception before the writing leaves the files as they
  were.
\<close>

inductive run ::
  "transport \<Rightarrow> re_sub \<Rightarrow> string list \<Rightarrow> files \<Rightarrow> outcome \<times> files \<times> url list \<Rightarrow> bool"
  for tr :: transport and sub :: re_sub and extra_repos :: "string list" and fs :: files
where
  fetch_repos_raises:
    "fetch_repos tr ORG_NAME = Some (Inl e, log0) \<Longrightarrow>
     run tr sub extra_repos fs (Raised e, fs, log0)"
| org_loop_raises:
    "fetch_repos tr ORG_NAME = Some (Inr repos, log0) \<Longrightarrow>
     org_loop tr (load_unversioned fs) repos ([], {}) log0 (Inl e, log1) \<Longrightarrow>
     run tr sub extra_repos fs (Raised e, fs, log1)"
| extra_loop_raises:
    "fetch_repos tr ORG_NAME = Some (Inr repos, log0) \<Longrightarrow>
     org_loop tr (load_unversioned fs) repos ([], {}) log0 (Inr acc1, log1) \<Longrightarrow>
     extra_repos \<noteq> [] \<Longrightarrow>
     process_extra_repos tr (load_unversioned fs) extra_repos acc1 log1 = Some (Inl e, log2) \<Longrightarrow>
     run tr sub extra_repos fs (Raised e, fs, log2)"
| writes:
    "fetch_repos tr ORG_NAME = Some (Inr repos, log0) \<Longrightarrow>
     org_loop tr (load_unversioned fs) repos ([], {}) log0 (Inr acc1, log1) \<Longrightarrow>
     (if extra_repos \<noteq> [] then process_extra_repos tr (load_unversioned fs) extra_repos acc1 log1
      else Some (Inr acc1, log1)) = Some (Inr (versions, new_unversioned), log2) \<Longrightarrow>
     write_outputs sub versions new_unversioned fs = (out, fs') \<Longrightarrow>
     run tr sub extra_repos fs (out, fs', log2)"

definition main :: "transport \<Rightarrow> re_sub \<Rightarrow> files \<Rightarrow> outcome \<times> files \<times> url list \<Rightarrow> bool" where
  "main tr sub fs res = run tr sub EXTRA_REPOS fs res"

text \<open>
  A repository that is checked and found to have no version tag: its tags are fetched
  and the selector runs without an exception and returns no tag.
\<close>

definition found_unversioned :: "transport \<Rightarrow> string \<Rightarrow> string \<Rightarrow> bool" where
  "found_unversioned tr org repo_name =
     (case check_repo tr org repo_name of
        Some (Inr latest, log) \<Rightarrow> \<not> has_version latest
      | _ \<Rightarrow> False)"

section \<open>Auxiliary notions for the proofs\<close>

text \<open>
  What the three loops of \<open>get_latest_version_tag\<close> collect, and what the function then
  selects, when no conversion raises. These are not part of the model; the lemmas below
  relate the model to them.
\<close>

definition vinteger_pool :: "string list \<Rightarrow> (int \<times> string) list" where
  "vinteger_pool tags =
     List.map_filter
       (\<lambda>tag. case match_vinteger (py_strip tag) of
                 None \<Rightarrow> None
               | Some g \<Rightarrow> Some (digits_value g, py_strip tag)) tags"

definition integer_pool :: "string list \<Rightarrow> (int \<times> string) list" where
  "integer_pool tags =
     List.map_filter
       (\<lambda>tag. case match_integer (py_strip tag) of
                 None \<Rightarrow> None
               | Some g \<Rightarrow> Some (digits_value g, py_strip tag)) tags"

definition major_minor_pool :: "string list \<Rightarrow> (int \<times> int \<times> string) list" where
  "major_minor_pool tags =
     List.map_filter
       (\<lambda>tag. case match_major_minor (py_strip tag) of
                 None \<Rightarrow> None
               | Some (g1, g2) \<Rightarrow> Some (digits_value g1, digits_value g2, py_strip tag)) tags"

definition select_from_pools :: "string list \<Rightarrow> string option" where
  "select_from_pools tags =
     (if vinteger_pool tags \<noteq> [] then
        Some (snd (hd (py_sort_reverse fst (vinteger_pool tags))))
      else if integer_pool tags \<noteq> [] then
        Some (snd (hd (py_sort_reverse fst (integer_pool tags))))
      else if major_minor_pool tags \<noteq> [] then
        Some (snd (snd (hd (py_sort_reverse (\<lambda>x. (fst x, fst (snd x))) (major_minor_pool tags)))))
      else None)"

text \<open>No digit group that a loop converts is too long for \<open>int\<close>.\<close>

definition vinteger_fits :: "string list \<Rightarrow> bool" where
  "vinteger_fits tags =
     list_all (\<lambda>tag. case match_vinteger (py_strip tag) of
                        None \<Rightarrow> True
                      | Some g \<Rightarrow> length g \<le> max_str_digits) tags"

definition integer_fits :: "string list \<Rightarrow> bool" where
  "integer_fits tags =
     list_all (\<lambda>tag. case match_integer (py_strip tag) of
                        None \<Rightarrow> True
                      | Some g \<Rightarrow> length g \<le> max_str_digits) tags"

definition major_minor_fits :: "string list \<Rightarrow> bool" where
  "major_minor_fits tags =
     list_all (\<lambda>tag. case match_major_minor (py_strip tag) of
                        None \<Rightarrow> True
                      | Some (g1, g2) \<Rightarrow> length g1 \<le> max_str_digits \<and> length g2 \<le> max_str_digits) tags"

section \<open>Properties of the selector\<close>

lemma sorted_key_le_last:
  "sorted (map k ys) \<Longrightarrow> x \<in> set ys \<Longrightarrow> k x \<le> k (last ys)"
proof (induction ys rule: rev_induct)
  case Nil
  then show ?case by simp
next
  case (snoc y ys)
  then show ?case by (auto simp: sorted_append)
qed

lemma last_filter_last:
  "ys \<noteq> [] \<Longrightarrow> P (last ys) \<Longrightarrow> last (filter P ys) = last ys"
  by (induction ys rule: rev_induct) auto

lemma hd_py_sort_reverse:
  assumes "xs \<noteq> []"
  shows "hd (py_sort_reverse k xs) = hd (filter (\<lambda>x. k x = k (hd (py_sort_reverse k xs))) xs)"
    and "hd (py_sort_reverse k xs) \<in> set xs"
    and "\<forall>x\<in>set xs. k x \<le> k (hd (py_sort_reverse k xs))"
proof -
  define ys where "ys = sort_key k (rev xs)"
  have ne: "ys \<noteq> []" using assms unfolding ys_def by (metis length_sort length_rev length_0_conv)
  have hd_last: "hd (py_sort_reverse k xs) = last ys"
    unfolding py_sort_reverse_def ys_def[symmetric] using ne by (simp add: hd_rev)
  have srt: "sorted (map k ys)" unfolding ys_def by (rule sorted_sort_key)
  have st: "set ys = set xs" unfolding ys_def by simp
  show "hd (py_sort_reverse k xs) \<in> set xs"
    using hd_last ne st last_in_set by metis
  show "\<forall>x\<in>set xs. k x \<le> k (hd (py_sort_reverse k xs))"
    using sorted_key_le_last[OF srt] st hd_last by simp
  let ?P = "\<lambda>x. k x = k (last ys)"
  have "last ys = last (filter ?P ys)" using last_filter_last[of ys ?P] ne by simp
  also have "filter ?P ys = rev (filter ?P xs)"
    unfolding ys_def[symmetric] using sort_key_stable[of k "k (last ys)" "rev xs"]
    by (simp add: ys_def[symmetric] rev_filter)
  also have "last (rev (filter ?P xs)) = hd (filter ?P xs)"
  proof -
    have "last ys \<in> set xs" using ne st last_in_set by metis
    then have "filter ?P xs \<noteq> []" by (auto simp: filter_empty_conv)
    then show ?thesis by (simp add: last_rev)
  qed
  finally show "hd (py_sort_reverse k xs) = hd (filter (\<lambda>x. k x = k (hd (py_sort_reverse k xs))) xs)"
    using hd_last by simp
qed

lemma hd_py_sort_reverse_first:
  assumes "xs \<noteq> []"
  shows "\<exists>us vs. xs = us @ hd (py_sort_reverse k xs) # vs \<and>
           (\<forall>u\<in>set us. k u < k (hd (py_sort_reverse k xs))) \<and>
           (\<forall>v\<in>set vs. k v \<le> k (hd (py_sort_reverse k xs)))"
proof -
  let ?r = "hd (py_sort_reverse k xs)"
  let ?P = "\<lambda>x. k x = k ?r"
  have r: "?r = hd (filter ?P xs)" and mem: "?r \<in> set xs" and mx: "\<forall>x\<in>set xs. k x \<le> k ?r"
    using hd_py_sort_reverse[OF assms, of k] by blast+
  from mem have "filter ?P xs \<noteq> []" by (auto simp: filter_empty_conv)
  then obtain fs where "filter ?P xs = ?r # fs" using r by (metis list.exhaust_sel)
  then obtain us vs where xs: "xs = us @ ?r # vs" and us: "\<forall>u\<in>set us. \<not> ?P u"
    unfolding filter_eq_Cons_iff by blast
  have "\<forall>u\<in>set us. k u < k ?r"
  proof
    fix u assume "u \<in> set us"
    then have "u \<in> set xs" using xs by (metis Un_iff set_append)
    with mx us \<open>u \<in> set us\<close> show "k u < k ?r" by (metis order_le_imp_less_or_eq)
  qed
  moreover have "\<forall>v\<in>set vs. k v \<le> k ?r"
  proof
    fix v assume "v \<in> set vs"
    then have "v \<in> set xs" using xs by (metis Un_iff set_append list.set_intros(2))
    with mx show "k v \<le> k ?r" by blast
  qed
  ultimately show ?thesis using xs by blast
qed

lemma map_filter_set:
  "set (List.map_filter f xs) = {y. \<exists>x\<in>set xs. f x = Some y}"
  by (induction xs) (auto split: option.splits)

lemma map_filter_empty_iff:
  "List.map_filter f xs = [] \<longleftrightarrow> (\<forall>x\<in>set xs. f x = None)"
  by (induction xs) (auto split: option.splits)

lemma map_filter_split:
  "List.map_filter f xs = us' @ r # vs' \<Longrightarrow>
     \<exists>us t vs. xs = us @ t # vs \<and> f t = Some r \<and>
        List.map_filter f us = us' \<and> List.map_filter f vs = vs'"
proof (induction xs arbitrary: us')
  case Nil
  then show ?case by simp
next
  case (Cons x xs)
  show ?case
  proof (cases "f x")
    case None
    with Cons.prems have "List.map_filter f xs = us' @ r # vs'"
      by simp
    from Cons.IH[OF this] obtain us t vs where
      "xs = us @ t # vs" "f t = Some r" "List.map_filter f us = us'" "List.map_filter f vs = vs'"
      by blast
    then have "x # xs = (x # us) @ t # vs \<and> f t = Some r \<and>
        List.map_filter f (x # us) = us' \<and> List.map_filter f vs = vs'"
      using None by simp
    then show ?thesis by blast
  next
    case (Some y)
    with Cons.prems have eq: "y # List.map_filter f xs = us' @ r # vs'"
      by simp
    show ?thesis
    proof (cases us')
      case Nil
      with eq have "y = r" "List.map_filter f xs = vs'" by simp_all
      then have "x # xs = [] @ x # xs \<and> f x = Some r \<and>
        List.map_filter f [] = us' \<and> List.map_filter f xs = vs'"
        using Some Nil by simp
      then show ?thesis by blast
    next
      case (Cons u us'')
      with eq have "y = u" "List.map_filter f xs = us'' @ r # vs'" by simp_all
      from Cons.IH[OF this(2)] obtain us t vs where
        "xs = us @ t # vs" "f t = Some r" "List.map_filter f us = us''" "List.map_filter f vs = vs'"
        by blast
      then have "x # xs = (x # us) @ t # vs \<and> f t = Some r \<and>
        List.map_filter f (x # us) = us' \<and> List.map_filter f vs = vs'"
        using Some Cons \<open>y = u\<close> by simp
      then show ?thesis by blast
    qed
  qed
qed

lemma py_strip_last_not_space:
  "py_strip s \<noteq> [] \<Longrightarrow> \<not> py_isspace (last (py_strip s))"
  unfolding py_strip_def by (simp add: last_rev hd_dropWhile)

lemma py_strip_hd_not_space:
  assumes "py_strip s \<noteq> []"
  shows "\<not> py_isspace (hd (py_strip s))"
proof -
  define a where "a = dropWhile py_isspace s"
  define b where "b = dropWhile py_isspace (rev a)"
  have s: "py_strip s = rev b" unfolding py_strip_def a_def b_def by simp
  with assms have bne: "b \<noteq> []" by simp
  then obtain x where x: "x \<in> set (rev a)" "\<not> py_isspace x"
    unfolding b_def by (metis dropWhile_eq_Nil_conv)
  have "last b = last (rev a)" unfolding b_def using x by (rule dropWhile_last)
  moreover have ane: "a \<noteq> []" using x by auto
  ultimately have "last b = hd a" by (simp add: last_rev)
  moreover have "\<not> py_isspace (hd a)" using ane unfolding a_def by (rule hd_dropWhile)
  ultimately show ?thesis using s bne by (simp add: hd_rev)
qed

lemma py_strip_idem: "py_strip (py_strip s) = py_strip s"
proof (cases "py_strip s = []")
  case True
  have "py_strip [] = []" by (simp add: py_strip_def)
  with True show ?thesis by simp
next
  case False
  have 1: "dropWhile py_isspace (py_strip s) = py_strip s"
    using py_strip_hd_not_space[OF False] by (simp add: dropWhile_eq_self_iff)
  have "rev (py_strip s) \<noteq> []" using False by simp
  moreover have "hd (rev (py_strip s)) = last (py_strip s)" using False by (simp add: hd_rev)
  ultimately have 2: "dropWhile py_isspace (rev (py_strip s)) = rev (py_strip s)"
    using py_strip_last_not_space[OF False] by (simp add: dropWhile_eq_self_iff)
  show ?thesis
    unfolding py_strip_def[of "py_strip s"] 1 2 by simp
qed

lemma at_dollar_strip:
  assumes "py_strip t = xs @ r" "at_dollar r"
  shows "r = []"
proof (rule ccontr)
  assume "r \<noteq> []"
  with assms(2) have r: "r = [CHR 0x0A]" by (simp add: at_dollar_def)
  then have "py_strip t \<noteq> []" "last (py_strip t) = CHR 0x0A" using assms(1) by simp_all
  moreover have "py_isspace (CHR 0x0A)" by (simp add: py_isspace_def)
  ultimately show False using py_strip_last_not_space by metis
qed


lemma match_integer_SomeD:
  assumes "match_integer s = Some g"
  shows "g \<noteq> [] \<and> (\<forall>c\<in>set g. is_digit c) \<and> (\<exists>r. s = g @ r \<and> at_dollar r)"
proof -
  from assms have g: "g = takeWhile is_digit s" and ne: "g \<noteq> []"
    and d: "at_dollar (dropWhile is_digit s)"
    unfolding match_integer_def by (auto simp: Let_def split: if_splits)
  have "s = g @ dropWhile is_digit s" unfolding g by simp
  with d have "\<exists>r. s = g @ r \<and> at_dollar r" by blast
  moreover have "\<forall>c\<in>set g. is_digit c" unfolding g by (blast dest: set_takeWhileD)
  ultimately show ?thesis using ne by blast
qed

lemma match_major_minor_SomeD:
  assumes "match_major_minor s = Some (g1, g2)"
  shows "g1 \<noteq> [] \<and> g2 \<noteq> [] \<and> (\<forall>c\<in>set g1. is_digit c) \<and> (\<forall>c\<in>set g2. is_digit c) \<and>
     (\<exists>r. s = g1 @ CHR ''.'' # g2 @ r \<and> at_dollar r)"
proof -
  define r1 where "r1 = dropWhile is_digit s"
  have s: "s = takeWhile is_digit s @ r1" unfolding r1_def by simp
  from assms obtain r2 where r1: "r1 = CHR ''.'' # r2" and g1: "g1 = takeWhile is_digit s"
    and ne1: "g1 \<noteq> []" and g2: "g2 = takeWhile is_digit r2" and ne2: "g2 \<noteq> []"
    and d: "at_dollar (dropWhile is_digit r2)"
    unfolding match_major_minor_def r1_def[symmetric]
    by (auto simp: Let_def split: list.splits if_splits)
  have "r2 = g2 @ dropWhile is_digit r2" unfolding g2 by simp
  with s r1 g1 have "s = g1 @ CHR ''.'' # g2 @ dropWhile is_digit r2" by simp
  with d have "\<exists>r. s = g1 @ CHR ''.'' # g2 @ r \<and> at_dollar r" by blast
  moreover have "\<forall>c\<in>set g1. is_digit c" unfolding g1 by (blast dest: set_takeWhileD)
  moreover have "\<forall>c\<in>set g2. is_digit c" unfolding g2 by (blast dest: set_takeWhileD)
  ultimately show ?thesis using ne1 ne2 by blast
qed


lemma match_integer_strip:
  "match_integer (py_strip t) = Some g \<Longrightarrow> py_strip t = g"
proof -
  assume "match_integer (py_strip t) = Some g"
  then obtain r where r: "py_strip t = g @ r" "at_dollar r"
    using match_integer_SomeD by blast
  from at_dollar_strip[OF this] r(1) show ?thesis by simp
qed

lemma match_major_minor_strip:
  "match_major_minor (py_strip t) = Some (g1, g2) \<Longrightarrow> py_strip t = g1 @ CHR ''.'' # g2"
proof -
  assume "match_major_minor (py_strip t) = Some (g1, g2)"
  then obtain r where r: "py_strip t = g1 @ CHR ''.'' # g2 @ r" "at_dollar r"
    using match_major_minor_SomeD by blast
  then have "py_strip t = (g1 @ CHR ''.'' # g2) @ r" by simp
  from at_dollar_strip[OF this r(2)] r(1) show ?thesis by simp
qed

lemma not_digit_v: "\<not> is_digit (CHR ''v'')"
  by (simp add: is_digit_def)

lemma vinteger_not_integer: "is_vinteger s \<Longrightarrow> \<not> is_integer s"
  unfolding is_vinteger_def is_integer_def match_vinteger_def match_integer_def
  by (auto simp: Let_def not_digit_v split: list.splits if_splits)

lemma vinteger_not_major_minor: "is_vinteger s \<Longrightarrow> \<not> is_major_minor s"
  unfolding is_vinteger_def is_major_minor_def match_vinteger_def match_major_minor_def
  by (auto simp: Let_def not_digit_v split: list.splits if_splits)

lemma integer_not_major_minor:
  assumes "is_integer s"
  shows "\<not> is_major_minor s"
proof -
  from assms have d: "at_dollar (dropWhile is_digit s)"
    unfolding is_integer_def match_integer_def by (auto simp: Let_def split: if_splits)
  have "\<not> (\<exists>r2. dropWhile is_digit s = CHR ''.'' # r2)"
  proof
    assume "\<exists>r2. dropWhile is_digit s = CHR ''.'' # r2"
    then obtain r2 where "dropWhile is_digit s = CHR ''.'' # r2" by blast
    with d show False unfolding at_dollar_def by simp
  qed
  then show ?thesis
    unfolding is_major_minor_def match_major_minor_def
    by (auto simp: Let_def split: list.splits if_splits)
qed

lemma vinteger_pool_empty_iff:
  "vinteger_pool tags = [] \<longleftrightarrow> (\<forall>t\<in>set tags. \<not> is_vinteger (py_strip t))"
  unfolding vinteger_pool_def map_filter_empty_iff is_vinteger_def
  by (auto split: option.splits)

lemma integer_pool_empty_iff:
  "integer_pool tags = [] \<longleftrightarrow> (\<forall>t\<in>set tags. \<not> is_integer (py_strip t))"
  unfolding integer_pool_def map_filter_empty_iff is_integer_def
  by (auto split: option.splits)

lemma major_minor_pool_empty_iff:
  "major_minor_pool tags = [] \<longleftrightarrow> (\<forall>t\<in>set tags. \<not> is_major_minor (py_strip t))"
  unfolding major_minor_pool_def map_filter_empty_iff is_major_minor_def
  by (auto split: option.splits)

lemma select_vinteger:
  assumes "vinteger_pool tags \<noteq> []"
  shows "\<exists>us t vs g. tags = us @ t # vs \<and>
           select_from_pools tags = Some (py_strip t) \<and>
           match_vinteger (py_strip t) = Some g \<and>
           (\<forall>u\<in>set us. \<forall>g'. match_vinteger (py_strip u) = Some g' \<longrightarrow> digits_value g' < digits_value g) \<and>
           (\<forall>v\<in>set vs. \<forall>g'. match_vinteger (py_strip v) = Some g' \<longrightarrow> digits_value g' \<le> digits_value g)"
proof -
  let ?f = "\<lambda>tag. case match_vinteger (py_strip tag) of
                 None \<Rightarrow> None | Some g \<Rightarrow> Some (digits_value g, py_strip tag)"
  let ?r = "hd (py_sort_reverse fst (vinteger_pool tags))"
  have res: "select_from_pools tags = Some (snd ?r)"
    using assms by (simp add: select_from_pools_def)
  from hd_py_sort_reverse_first[OF assms, of fst] obtain us' vs' where
    pool: "vinteger_pool tags = us' @ ?r # vs'" and
    lt: "\<forall>u\<in>set us'. fst u < fst ?r" and le: "\<forall>v\<in>set vs'. fst v \<le> fst ?r"
    by blast
  from pool have "List.map_filter ?f tags = us' @ ?r # vs'" by (simp add: vinteger_pool_def)
  from map_filter_split[OF this] obtain us t vs where
    tags: "tags = us @ t # vs" and ft: "?f t = Some ?r" and
    us: "List.map_filter ?f us = us'" and vs: "List.map_filter ?f vs = vs'"
    by blast
  from ft obtain g where g: "match_vinteger (py_strip t) = Some g" and r: "?r = (digits_value g, py_strip t)"
    by (auto split: option.splits)
  have "\<forall>u\<in>set us. \<forall>g'. match_vinteger (py_strip u) = Some g' \<longrightarrow> digits_value g' < digits_value g"
  proof (intro ballI allI impI)
    fix u g' assume "u \<in> set us" "match_vinteger (py_strip u) = Some g'"
    then have "(digits_value g', py_strip u) \<in> set us'"
      unfolding us[symmetric] map_filter_set by (auto intro!: bexI[of _ u])
    with lt have "fst (digits_value g', py_strip u) < fst ?r" by blast
    then show "digits_value g' < digits_value g" unfolding r by simp
  qed
  moreover have "\<forall>v\<in>set vs. \<forall>g'. match_vinteger (py_strip v) = Some g' \<longrightarrow> digits_value g' \<le> digits_value g"
  proof (intro ballI allI impI)
    fix v g' assume "v \<in> set vs" "match_vinteger (py_strip v) = Some g'"
    then have "(digits_value g', py_strip v) \<in> set vs'"
      unfolding vs[symmetric] map_filter_set by (auto intro!: bexI[of _ v])
    with le have "fst (digits_value g', py_strip v) \<le> fst ?r" by blast
    then show "digits_value g' \<le> digits_value g" unfolding r by simp
  qed
  moreover have "select_from_pools tags = Some (py_strip t)" using res r by simp
  ultimately show ?thesis using tags g by blast
qed

lemma select_integer:
  assumes "vinteger_pool tags = []" "integer_pool tags \<noteq> []"
  shows "\<exists>us t vs g. tags = us @ t # vs \<and>
           select_from_pools tags = Some (py_strip t) \<and>
           match_integer (py_strip t) = Some g \<and>
           (\<forall>u\<in>set us. \<forall>g'. match_integer (py_strip u) = Some g' \<longrightarrow> digits_value g' < digits_value g) \<and>
           (\<forall>v\<in>set vs. \<forall>g'. match_integer (py_strip v) = Some g' \<longrightarrow> digits_value g' \<le> digits_value g)"
proof -
  let ?f = "\<lambda>tag. case match_integer (py_strip tag) of
                 None \<Rightarrow> None | Some g \<Rightarrow> Some (digits_value g, py_strip tag)"
  let ?r = "hd (py_sort_reverse fst (integer_pool tags))"
  have res: "select_from_pools tags = Some (snd ?r)"
    using assms by (simp add: select_from_pools_def)
  from hd_py_sort_reverse_first[OF assms(2), of fst] obtain us' vs' where
    pool: "integer_pool tags = us' @ ?r # vs'" and
    lt: "\<forall>u\<in>set us'. fst u < fst ?r" and le: "\<forall>v\<in>set vs'. fst v \<le> fst ?r"
    by blast
  from pool have "List.map_filter ?f tags = us' @ ?r # vs'" by (simp add: integer_pool_def)
  from map_filter_split[OF this] obtain us t vs where
    tags: "tags = us @ t # vs" and ft: "?f t = Some ?r" and
    us: "List.map_filter ?f us = us'" and vs: "List.map_filter ?f vs = vs'"
    by blast
  from ft obtain g where g: "match_integer (py_strip t) = Some g" and r: "?r = (digits_value g, py_strip t)"
    by (auto split: option.splits)
  have "\<forall>u\<in>set us. \<forall>g'. match_integer (py_strip u) = Some g' \<longrightarrow> digits_value g' < digits_value g"
  proof (intro ballI allI impI)
    fix u g' assume "u \<in> set us" "match_integer (py_strip u) = Some g'"
    then have "(digits_value g', py_strip u) \<in> set us'"
      unfolding us[symmetric] map_filter_set by (auto intro!: bexI[of _ u])
    with lt have "fst (digits_value g', py_strip u) < fst ?r" by blast
    then show "digits_value g' < digits_value g" unfolding r by simp
  qed
  moreover have "\<forall>v\<in>set vs. \<forall>g'. match_integer (py_strip v) = Some g' \<longrightarrow> digits_value g' \<le> digits_value g"
  proof (intro ballI allI impI)
    fix v g' assume "v \<in> set vs" "match_integer (py_strip v) = Some g'"
    then have "(digits_value g', py_strip v) \<in> set vs'"
      unfolding vs[symmetric] map_filter_set by (auto intro!: bexI[of _ v])
    with le have "fst (digits_value g', py_strip v) \<le> fst ?r" by blast
    then show "digits_value g' \<le> digits_value g" unfolding r by simp
  qed
  moreover have "select_from_pools tags = Some (py_strip t)" using res r by simp
  ultimately show ?thesis using tags g by blast
qed

lemma select_major_minor:
  assumes "vinteger_pool tags = []" "integer_pool tags = []" "major_minor_pool tags \<noteq> []"
  shows "\<exists>us t vs g1 g2. tags = us @ t # vs \<and>
           select_from_pools tags = Some (py_strip t) \<and>
           match_major_minor (py_strip t) = Some (g1, g2) \<and>
           (\<forall>u\<in>set us. \<forall>h1 h2. match_major_minor (py_strip u) = Some (h1, h2) \<longrightarrow>
               digits_value h1 < digits_value g1 \<or> (digits_value h1 = digits_value g1 \<and> digits_value h2 < digits_value g2)) \<and>
           (\<forall>v\<in>set vs. \<forall>h1 h2. match_major_minor (py_strip v) = Some (h1, h2) \<longrightarrow>
               digits_value h1 < digits_value g1 \<or> (digits_value h1 = digits_value g1 \<and> digits_value h2 \<le> digits_value g2))"
proof -
  let ?f = "\<lambda>tag. case match_major_minor (py_strip tag) of
                 None \<Rightarrow> None | Some (g1, g2) \<Rightarrow> Some (digits_value g1, digits_value g2, py_strip tag)"
  let ?k = "\<lambda>x :: int \<times> int \<times> string. (fst x, fst (snd x))"
  let ?r = "hd (py_sort_reverse ?k (major_minor_pool tags))"
  have res: "select_from_pools tags = Some (snd (snd ?r))"
    using assms by (simp add: select_from_pools_def)
  from hd_py_sort_reverse_first[OF assms(3), of ?k] obtain us' vs' where
    pool: "major_minor_pool tags = us' @ ?r # vs'" and
    lt: "\<forall>u\<in>set us'. ?k u < ?k ?r" and le: "\<forall>v\<in>set vs'. ?k v \<le> ?k ?r"
    by blast
  from pool have "List.map_filter ?f tags = us' @ ?r # vs'" by (simp add: major_minor_pool_def)
  from map_filter_split[OF this] obtain us t vs where
    tags: "tags = us @ t # vs" and ft: "?f t = Some ?r" and
    us: "List.map_filter ?f us = us'" and vs: "List.map_filter ?f vs = vs'"
    by blast
  from ft obtain g1 g2 where g: "match_major_minor (py_strip t) = Some (g1, g2)"
    and r: "?r = (digits_value g1, digits_value g2, py_strip t)"
    by (auto split: option.splits)
  have "\<forall>u\<in>set us. \<forall>h1 h2. match_major_minor (py_strip u) = Some (h1, h2) \<longrightarrow>
               digits_value h1 < digits_value g1 \<or> (digits_value h1 = digits_value g1 \<and> digits_value h2 < digits_value g2)"
  proof (intro ballI allI impI)
    fix u h1 h2 assume "u \<in> set us" "match_major_minor (py_strip u) = Some (h1, h2)"
    then have "(digits_value h1, digits_value h2, py_strip u) \<in> set us'"
      unfolding us[symmetric] map_filter_set by (auto intro!: bexI[of _ u])
    with lt have "?k (digits_value h1, digits_value h2, py_strip u) < ?k ?r" by blast
    then show "digits_value h1 < digits_value g1 \<or> (digits_value h1 = digits_value g1 \<and> digits_value h2 < digits_value g2)"
      unfolding r by auto
  qed
  moreover have "\<forall>v\<in>set vs. \<forall>h1 h2. match_major_minor (py_strip v) = Some (h1, h2) \<longrightarrow>
               digits_value h1 < digits_value g1 \<or> (digits_value h1 = digits_value g1 \<and> digits_value h2 \<le> digits_value g2)"
  proof (intro ballI allI impI)
    fix v h1 h2 assume "v \<in> set vs" "match_major_minor (py_strip v) = Some (h1, h2)"
    then have "(digits_value h1, digits_value h2, py_strip v) \<in> set vs'"
      unfolding vs[symmetric] map_filter_set by (auto intro!: bexI[of _ v])
    with le have "?k (digits_value h1, digits_value h2, py_strip v) \<le> ?k ?r" by blast
    then show "digits_value h1 < digits_value g1 \<or> (digits_value h1 = digits_value g1 \<and> digits_value h2 \<le> digits_value g2)"
      unfolding r by auto
  qed
  moreover have "select_from_pools tags = Some (py_strip t)" using res r by simp
  ultimately show ?thesis using tags g by blast
qed

lemma map_filter_map: "List.map_filter f (map g xs) = List.map_filter (\<lambda>x. f (g x)) xs"
  by (induction xs) (auto split: option.splits)

lemma vinteger_pool_strip: "vinteger_pool (map py_strip tags) = vinteger_pool tags"
  by (simp add: vinteger_pool_def map_filter_map py_strip_idem cong: option.case_cong)

lemma integer_pool_strip: "integer_pool (map py_strip tags) = integer_pool tags"
  by (simp add: integer_pool_def map_filter_map py_strip_idem cong: option.case_cong)

lemma major_minor_pool_strip: "major_minor_pool (map py_strip tags) = major_minor_pool tags"
  by (simp add: major_minor_pool_def map_filter_map py_strip_idem cong: option.case_cong prod.case_cong)

lemma select_from_pools_None_iff:
  "select_from_pools tags = None \<longleftrightarrow>
     vinteger_pool tags = [] \<and> integer_pool tags = [] \<and> major_minor_pool tags = []"
  by (simp add: select_from_pools_def)

subsection \<open>Decimal values\<close>











section \<open>Properties of the page-fetch loops\<close>

lemma names_of_append:
  "names_of (xs @ ys) =
     (case names_of xs of
        Inl e \<Rightarrow> Inl e
      | Inr a \<Rightarrow> (case names_of ys of Inl e \<Rightarrow> Inl e | Inr b \<Rightarrow> Inr (a @ b)))"
  by (induction xs) (auto split: sum.splits)

lemma names_of_appendD:
  "names_of (xs @ ys) = Inr ns \<Longrightarrow>
     \<exists>a b. names_of xs = Inr a \<and> names_of ys = Inr b \<and> ns = a @ b"
  by (auto simp: names_of_append split: sum.splits)

lemma full_page_truthy: "per_page \<le> length pg \<Longrightarrow> pg \<noteq> []"
  by (auto simp: per_page_def)

lemma fetch_tags_loop_full_page:
  assumes "tr (TagsUrl org repo per_page p) = Inr (JArr pg)" "per_page \<le> length pg"
    "names_of pg = Inr a"
  shows "fetch_tags_loop tr org repo p acc log =
         fetch_tags_loop tr org repo (Suc p) (acc @ a) (log @ [TagsUrl org repo per_page p])"
  using assms full_page_truthy[OF assms(2)]
  by (subst fetch_tags_loop.simps) (simp add: Let_def)

lemma fetch_tags_loop_full_pages:
  assumes "\<forall>k<length ps. tr (TagsUrl org repo per_page (p + k)) = Inr (JArr (ps ! k)) \<and>
              per_page \<le> length (ps ! k)"
    and "names_of (concat ps) = Inr names"
  shows "fetch_tags_loop tr org repo p acc log =
         fetch_tags_loop tr org repo (p + length ps) (acc @ names)
           (log @ map (TagsUrl org repo per_page) [p..<p + length ps])"
  using assms
proof (induction ps arbitrary: p acc log names)
  case Nil
  then show ?case by simp
next
  case (Cons pg ps)
  from Cons.prems(1) have pg: "tr (TagsUrl org repo per_page p) = Inr (JArr pg)" "per_page \<le> length pg"
    by force+
  from Cons.prems(2) obtain a b where a: "names_of pg = Inr a" and b: "names_of (concat ps) = Inr b"
    and names: "names = a @ b"
    using names_of_appendD[of pg "concat ps" names] by auto
  have rest: "\<forall>k<length ps. tr (TagsUrl org repo per_page (Suc p + k)) = Inr (JArr (ps ! k)) \<and>
              per_page \<le> length (ps ! k)"
  proof (intro allI impI)
    fix k assume "k < length ps"
    then have "Suc k < length (pg # ps)" by simp
    with Cons.prems(1) have "tr (TagsUrl org repo per_page (p + Suc k)) = Inr (JArr ((pg # ps) ! Suc k)) \<and>
              per_page \<le> length ((pg # ps) ! Suc k)" by blast
    then show "tr (TagsUrl org repo per_page (Suc p + k)) = Inr (JArr (ps ! k)) \<and>
              per_page \<le> length (ps ! k)" by simp
  qed
  have upt: "[p..<p + length (pg # ps)] = p # [Suc p..<Suc p + length ps]"
  proof -
    have e: "p + length (pg # ps) = Suc p + length ps" by simp
    show ?thesis unfolding e by (rule upt_conv_Cons) simp
  qed
  have "fetch_tags_loop tr org repo p acc log =
      fetch_tags_loop tr org repo (Suc p) (acc @ a) (log @ [TagsUrl org repo per_page p])"
    using pg a by (rule fetch_tags_loop_full_page)
  also have "\<dots> = fetch_tags_loop tr org repo (Suc p + length ps) ((acc @ a) @ b)
      ((log @ [TagsUrl org repo per_page p]) @ map (TagsUrl org repo per_page) [Suc p..<Suc p + length ps])"
    using rest b by (rule Cons.IH)
  finally show ?case unfolding upt names by simp
qed

lemma fetch_repos_loop_full_page:
  assumes "tr (ReposUrl org per_page p) = Inr (JArr pg)" "per_page \<le> length pg"
  shows "fetch_repos_loop tr org p acc log =
         fetch_repos_loop tr org (Suc p) (acc @ pg) (log @ [ReposUrl org per_page p])"
  using assms full_page_truthy[OF assms(2)]
  by (subst fetch_repos_loop.simps) (simp add: Let_def)

lemma fetch_repos_loop_full_pages:
  assumes "\<forall>k<length ps. tr (ReposUrl org per_page (p + k)) = Inr (JArr (ps ! k)) \<and>
              per_page \<le> length (ps ! k)"
  shows "fetch_repos_loop tr org p acc log =
         fetch_repos_loop tr org (p + length ps) (acc @ concat ps)
           (log @ map (ReposUrl org per_page) [p..<p + length ps])"
  using assms
proof (induction ps arbitrary: p acc log)
  case Nil
  then show ?case by simp
next
  case (Cons pg ps)
  from Cons.prems(1) have pg: "tr (ReposUrl org per_page p) = Inr (JArr pg)" "per_page \<le> length pg"
    by force+
  have rest: "\<forall>k<length ps. tr (ReposUrl org per_page (Suc p + k)) = Inr (JArr (ps ! k)) \<and>
              per_page \<le> length (ps ! k)"
  proof (intro allI impI)
    fix k assume "k < length ps"
    then have "Suc k < length (pg # ps)" by simp
    with Cons.prems(1) have "tr (ReposUrl org per_page (p + Suc k)) = Inr (JArr ((pg # ps) ! Suc k)) \<and>
              per_page \<le> length ((pg # ps) ! Suc k)" by blast
    then show "tr (ReposUrl org per_page (Suc p + k)) = Inr (JArr (ps ! k)) \<and>
              per_page \<le> length (ps ! k)" by simp
  qed
  have upt: "[p..<p + length (pg # ps)] = p # [Suc p..<Suc p + length ps]"
  proof -
    have e: "p + length (pg # ps) = Suc p + length ps" by simp
    show ?thesis unfolding e by (rule upt_conv_Cons) simp
  qed
  have "fetch_repos_loop tr org p acc log =
      fetch_repos_loop tr org (Suc p) (acc @ pg) (log @ [ReposUrl org per_page p])"
    using pg by (rule fetch_repos_loop_full_page)
  also have "\<dots> = fetch_repos_loop tr org (Suc p + length ps) ((acc @ pg) @ concat ps)
      ((log @ [ReposUrl org per_page p]) @ map (ReposUrl org per_page) [Suc p..<Suc p + length ps])"
    using rest by (rule Cons.IH)
  finally show ?case unfolding upt by simp
qed

lemma fetch_tags_loop_error_page:
  assumes "tr (TagsUrl org repo per_page p) = Inr (JObj kvs)" "''message'' \<in> fst ` set kvs"
  shows "fetch_tags_loop tr org repo p acc log = Some (Inr acc, log @ [TagsUrl org repo per_page p])"
  using assms by (subst fetch_tags_loop.simps) (simp add: Let_def)

lemma fetch_tags_loop_short_page:
  assumes "tr (TagsUrl org repo per_page p) = Inr (JArr pg)" "length pg < per_page"
    "names_of pg = Inr a"
  shows "fetch_tags_loop tr org repo p acc log =
         Some (Inr (acc @ a), log @ [TagsUrl org repo per_page p])"
  using assms by (subst fetch_tags_loop.simps) (auto simp: Let_def)

lemma fetch_repos_loop_short_page:
  assumes "tr (ReposUrl org per_page p) = Inr (JArr pg)" "length pg < per_page"
  shows "fetch_repos_loop tr org p acc log =
         Some (Inr (acc @ pg), log @ [ReposUrl org per_page p])"
  using assms by (subst fetch_repos_loop.simps) (auto simp: Let_def)


lemma names_of_replicate:
  "subscript_name x = Inr n \<Longrightarrow> names_of (replicate k x) = Inr (replicate k n)"
  by (induction k) auto

section \<open>Properties of the writer\<close>

lemma py_join_terminated:
  "xs \<noteq> [] \<Longrightarrow> py_join sep xs @ sep = concat (map (\<lambda>x. x @ sep) xs)"
  by (induction sep xs rule: py_join.induct) simp_all

lemma update_readme_versions_file:
  "update_readme sub vc fs = Inr fs2 \<Longrightarrow> versions_file fs2 = versions_file fs"
  unfolding update_readme_def by (auto split: option.splits if_splits sum.splits)

lemma update_readme_unversioned_file:
  "update_readme sub vc fs = Inr fs2 \<Longrightarrow> unversioned_file fs2 = unversioned_file fs"
  unfolding update_readme_def by (auto split: option.splits if_splits sum.splits)

lemma write_outputs_versions_file:
  "versions_file (snd (write_outputs sub versions nu fs)) =
     Some (build_versions_content (sort_versions versions))"
  unfolding write_outputs_def save_unversioned_def
  by (auto simp: Let_def split: sum.splits dest!: update_readme_versions_file)

lemma write_outputs_unversioned_file:
  "fst (write_outputs sub versions nu fs) = Completed \<Longrightarrow>
     unversioned_file (snd (write_outputs sub versions nu fs)) = Some (unversioned_content nu)"
  unfolding write_outputs_def save_unversioned_def
  by (auto simp: Let_def split: sum.splits)

lemma write_outputs_raised_unversioned_file:
  "fst (write_outputs sub versions nu fs) = Raised e \<Longrightarrow>
     unversioned_file (snd (write_outputs sub versions nu fs)) = unversioned_file fs"
  unfolding write_outputs_def save_unversioned_def
  by (auto simp: Let_def split: sum.splits)

lemma unversioned_content_lines:
  assumes "finite repos"
  shows "\<exists>ids. sorted ids \<and> distinct ids \<and> set ids = repos \<and>
           unversioned_content repos = concat (map (\<lambda>i. i @ newline) ids)"
proof -
  let ?ids = "sorted_list_of_set repos"
  have "sorted ?ids" "distinct ?ids" "set ?ids = repos" using assms by simp_all
  then show ?thesis unfolding unversioned_content_def by blast
qed

lemma build_versions_content_lines:
  "vs \<noteq> [] \<Longrightarrow> build_versions_content vs =
     concat (map (\<lambda>(full_repo, tag). full_repo @ ''@'' @ tag @ newline) vs)"
proof -
  assume "vs \<noteq> []"
  then have "map (\<lambda>(full_repo, tag). full_repo @ ''@'' @ tag) vs \<noteq> []" by simp
  from py_join_terminated[OF this, of newline]
  have "build_versions_content vs =
      concat (map (\<lambda>x. x @ newline) (map (\<lambda>(full_repo, tag). full_repo @ ''@'' @ tag) vs))"
    unfolding build_versions_content_def by simp
  also have "\<dots> = concat (map (\<lambda>(full_repo, tag). full_repo @ ''@'' @ tag @ newline) vs)"
    by (simp add: comp_def split_def)
  finally show ?thesis .
qed

section \<open>Properties of the main run\<close>

lemma fetch_tags_loop_log:
  assumes "fetch_tags_loop tr org repo page tags log = Some y"
  shows "\<exists>l. snd y = log @ l \<and> (\<forall>u\<in>set l. \<exists>q. u = TagsUrl org repo per_page q)"
proof (rule fetch_tags_loop.raw_induct[where
      P = "\<lambda>tr org repo page tags log y.
             \<exists>l. snd y = log @ l \<and> (\<forall>u\<in>set l. \<exists>q. u = TagsUrl org repo per_page q)",
      OF _ assms])
  fix f :: "transport \<Rightarrow> string \<Rightarrow> string \<Rightarrow> nat \<Rightarrow> json list \<Rightarrow> url list \<Rightarrow>
      ((error + json list) \<times> url list) option"
  fix tr org repo page tags log y
  assume IH: "\<And>tr org repo page tags log y. f tr org repo page tags log = Some y \<Longrightarrow>
      \<exists>l. snd y = log @ l \<and> (\<forall>u\<in>set l. \<exists>q. u = TagsUrl org repo per_page q)"
  let ?u = "TagsUrl org repo per_page page"
  assume body: "(let u = TagsUrl org repo per_page page; log' = log @ [u] in
      case tr u of
        Inl e \<Rightarrow> Some (Inl e, log')
      | Inr page_tags \<Rightarrow>
          if is_error_payload page_tags then Some (Inr tags, log')
          else if \<not> py_truthy page_tags then Some (Inr tags, log')
          else (case py_iter page_tags of
                  Inl e \<Rightarrow> Some (Inl e, log')
                | Inr ts \<Rightarrow>
                    (case names_of ts of
                       Inl e \<Rightarrow> Some (Inl e, log')
                     | Inr ns \<Rightarrow>
                         (case py_len page_tags of
                            Inl e \<Rightarrow> Some (Inl e, log')
                          | Inr n \<Rightarrow>
                              if n < per_page then Some (Inr (tags @ ns), log')
                              else f tr org repo (page + 1) (tags @ ns) log')))) = Some y"
  have base: "\<exists>l. log @ [?u] = log @ l \<and> (\<forall>u\<in>set l. \<exists>q. u = TagsUrl org repo per_page q)"
    by auto
  have step: "\<exists>l. snd y = log @ l \<and> (\<forall>u\<in>set l. \<exists>q. u = TagsUrl org repo per_page q)"
    if "f tr org repo (page + 1) tags' (log @ [?u]) = Some y" for tags'
  proof -
    from IH[OF that] obtain l where l: "snd y = (log @ [?u]) @ l"
      "\<forall>u\<in>set l. \<exists>q. u = TagsUrl org repo per_page q" by blast
    then have "snd y = log @ (?u # l) \<and> (\<forall>u\<in>set (?u # l). \<exists>q. u = TagsUrl org repo per_page q)"
      by auto
    then show ?thesis by blast
  qed
  from body show "\<exists>l. snd y = log @ l \<and> (\<forall>u\<in>set l. \<exists>q. u = TagsUrl org repo per_page q)"
    using base step
    by (auto simp: Let_def split: sum.splits if_splits)
qed

lemma fetch_tags_log:
  "fetch_tags tr org repo = Some (res, l) \<Longrightarrow> \<forall>u\<in>set l. \<exists>q. u = TagsUrl org repo per_page q"
  unfolding fetch_tags_def using fetch_tags_loop_log[of tr org repo 1 "[]" "[]" "(res, l)"] by auto

lemma check_repo_log:
  assumes "check_repo tr org repo = Some (res, l)"
  shows "\<forall>u\<in>set l. \<exists>q. u = TagsUrl org repo per_page q"
proof (cases "fetch_tags tr org repo")
  case None
  with assms show ?thesis by (simp add: check_repo_def)
next
  case (Some y)
  obtain r l' where y: "y = (r, l')" by (cases y)
  from assms Some y have "l = l'" by (cases r) (simp_all add: check_repo_def)
  with Some y show ?thesis using fetch_tags_log[of tr org repo r l'] by simp
qed

lemma process_org_repo_cached:
  "repo_name \<in> unversioned \<Longrightarrow>
   process_org_repo tr unversioned repo_name acc =
     Some (Inr (fst acc, insert repo_name (snd acc)), [])"
  by (simp add: process_org_repo_def)

lemma process_org_repo_step:
  assumes "process_org_repo tr unversioned repo_name acc = Some (r, l)"
  shows "(\<forall>u\<in>set l. repo_name \<notin> unversioned \<and> (\<exists>q. u = TagsUrl ORG_NAME repo_name per_page q)) \<and>
         (\<forall>acc'. r = Inr acc' \<longrightarrow>
            snd acc' = (if repo_name \<in> unversioned \<or> found_unversioned tr ORG_NAME repo_name
                        then insert repo_name (snd acc) else snd acc))"
proof (cases "repo_name \<in> unversioned")
  case True
  with assms show ?thesis by (auto simp: process_org_repo_def)
next
  case False
  show ?thesis
  proof (cases "check_repo tr ORG_NAME repo_name")
    case None
    with assms False show ?thesis by (simp add: process_org_repo_def)
  next
    case (Some y)
    obtain c l' where y: "y = (c, l')" by (cases y)
    have lg: "\<forall>u\<in>set l'. \<exists>q. u = TagsUrl ORG_NAME repo_name per_page q"
      using check_repo_log[of tr ORG_NAME repo_name c l'] Some y by simp
    show ?thesis
    proof (cases c)
      case (Inl e)
      with assms False Some y lg show ?thesis by (auto simp: process_org_repo_def)
    next
      case (Inr latest)
      with assms False Some y have l: "l = l'"
        and r: "r = Inr (record_result (ORG_NAME @ ''/'' @ repo_name) repo_name latest acc)"
        by (auto simp: process_org_repo_def)
      have fu: "found_unversioned tr ORG_NAME repo_name = (\<not> has_version latest)"
        using Some y Inr by (simp add: found_unversioned_def)
      show ?thesis using l r lg fu False by (auto simp: record_result_def)
    qed
  qed
qed

lemma process_extra_repo_cached:
  "full_repo \<in> unversioned \<Longrightarrow> split_owner_repo full_repo = Inr (org, repo_name) \<Longrightarrow>
   process_extra_repo tr unversioned full_repo acc =
     Some (Inr (fst acc, insert full_repo (snd acc)), [])"
  by (simp add: process_extra_repo_def)

lemma process_extra_repo_step:
  assumes "process_extra_repo tr unversioned full_repo acc = Some (r, l)"
  shows "(\<forall>u\<in>set l. full_repo \<notin> unversioned \<and>
            (\<exists>org repo_name q. split_owner_repo full_repo = Inr (org, repo_name) \<and>
               u = TagsUrl org repo_name per_page q)) \<and>
         (\<forall>acc'. r = Inr acc' \<longrightarrow>
            snd acc' =
              (if full_repo \<in> unversioned \<or>
                  (case split_owner_repo full_repo of
                     Inl e \<Rightarrow> False
                   | Inr (org, repo_name) \<Rightarrow> found_unversioned tr org repo_name)
               then insert full_repo (snd acc) else snd acc))"
proof (cases "split_owner_repo full_repo")
  case (Inl e)
  with assms show ?thesis by (auto simp: process_extra_repo_def)
next
  case (Inr p)
  obtain org repo_name where p: "p = (org, repo_name)" by (cases p)
  show ?thesis
  proof (cases "full_repo \<in> unversioned")
    case True
    with assms Inr p show ?thesis by (auto simp: process_extra_repo_def)
  next
    case False
    show ?thesis
    proof (cases "check_repo tr org repo_name")
      case None
      with assms False Inr p show ?thesis by (simp add: process_extra_repo_def)
    next
      case (Some y)
      obtain c l' where y: "y = (c, l')" by (cases y)
      have lg: "\<forall>u\<in>set l'. \<exists>q. u = TagsUrl org repo_name per_page q"
        using check_repo_log[of tr org repo_name c l'] Some y by simp
      show ?thesis
      proof (cases c)
        case (Inl e)
        with assms False Some y lg Inr p show ?thesis by (auto simp: process_extra_repo_def)
      next
        case (Inr latest)
        with assms False Some y \<open>split_owner_repo full_repo = Inr p\<close> p have l: "l = l'"
          and r: "r = Inr (record_result full_repo full_repo latest acc)"
          by (auto simp: process_extra_repo_def)
        have fu: "found_unversioned tr org repo_name = (\<not> has_version latest)"
          using Some y Inr by (simp add: found_unversioned_def)
        show ?thesis using l r lg fu False \<open>split_owner_repo full_repo = Inr p\<close> p
          by (auto simp: record_result_def)
      qed
    qed
  qed
qed

lemma scalar_text_not_string: "scalar_text x = Some t \<Longrightarrow> x \<noteq> JStr s"
  by (cases x) simp_all

lemma org_loop_invariant:
  assumes "org_loop tr U repos acc log res"
  shows "\<exists>l. snd res = log @ l \<and>
           (\<forall>u\<in>set l. \<exists>rn q. u = TagsUrl ORG_NAME rn per_page q \<and>
              (\<exists>r\<in>set repos. (subscript_name r = Inr (JStr rn) \<and> rn \<notin> U) \<or>
                 (\<exists>x. subscript_name r = Inr x \<and> scalar_text x = Some (Inr rn)))) \<and>
           (\<forall>acc'. fst res = Inr acc' \<longrightarrow>
              snd acc' = snd acc \<union>
                {n. (\<exists>r\<in>set repos. subscript_name r = Inr (JStr n)) \<and>
                    (n \<in> U \<or> found_unversioned tr ORG_NAME n)})"
  using assms
proof (induction rule: org_loop.induct)
  case (finished acc log)
  show ?case by simp
next
  case (subscript_raises repo e repos acc log)
  show ?case by simp
next
  case (list_unhashable repo xs repos acc log)
  show ?case by simp
next
  case (dict_unhashable repo kvs repos acc log)
  show ?case by simp
next
  case (body_raises repo repo_name acc e l repos log)
  from process_org_repo_step[OF body_raises(2)]
  have "\<forall>u\<in>set l. repo_name \<notin> U \<and> (\<exists>q. u = TagsUrl ORG_NAME repo_name per_page q)" by simp
  with body_raises(1) show ?case by auto
next
  case (body_continues repo repo_name acc acc' l repos log res)
  from process_org_repo_step[OF body_continues(2)]
  have lg: "\<forall>u\<in>set l. repo_name \<notin> U \<and> (\<exists>q. u = TagsUrl ORG_NAME repo_name per_page q)"
    and st: "snd acc' = (if repo_name \<in> U \<or> found_unversioned tr ORG_NAME repo_name
                        then insert repo_name (snd acc) else snd acc)" by simp_all
  from body_continues.IH obtain l' where
    1: "snd res = (log @ l) @ l'" and
    2: "\<forall>u\<in>set l'. \<exists>rn q. u = TagsUrl ORG_NAME rn per_page q \<and>
              (\<exists>r\<in>set repos. (subscript_name r = Inr (JStr rn) \<and> rn \<notin> U) \<or>
                 (\<exists>x. subscript_name r = Inr x \<and> scalar_text x = Some (Inr rn)))" and
    3: "\<forall>acc''. fst res = Inr acc'' \<longrightarrow>
              snd acc'' = snd acc' \<union>
                {n. (\<exists>r\<in>set repos. subscript_name r = Inr (JStr n)) \<and>
                    (n \<in> U \<or> found_unversioned tr ORG_NAME n)}" by blast
  have a: "snd res = log @ (l @ l')" using 1 by simp
  have b: "\<forall>u\<in>set (l @ l'). \<exists>rn q. u = TagsUrl ORG_NAME rn per_page q \<and>
              (\<exists>r\<in>set (repo # repos). (subscript_name r = Inr (JStr rn) \<and> rn \<notin> U) \<or>
                 (\<exists>x. subscript_name r = Inr x \<and> scalar_text x = Some (Inr rn)))"
  proof
    fix u assume "u \<in> set (l @ l')"
    then consider "u \<in> set l" | "u \<in> set l'" by auto
    then show "\<exists>rn q. u = TagsUrl ORG_NAME rn per_page q \<and>
              (\<exists>r\<in>set (repo # repos). (subscript_name r = Inr (JStr rn) \<and> rn \<notin> U) \<or>
                 (\<exists>x. subscript_name r = Inr x \<and> scalar_text x = Some (Inr rn)))"
    proof cases
      case 1
      with lg body_continues(1) show ?thesis by auto
    next
      case 2
      with \<open>\<forall>u\<in>set l'. _\<close> obtain rn q where
        "u = TagsUrl ORG_NAME rn per_page q"
        "\<exists>r\<in>set repos. (subscript_name r = Inr (JStr rn) \<and> rn \<notin> U) \<or>
                 (\<exists>x. subscript_name r = Inr x \<and> scalar_text x = Some (Inr rn))" by blast
      then show ?thesis by auto
    qed
  qed
  have c: "\<forall>acc''. fst res = Inr acc'' \<longrightarrow>
              snd acc'' = snd acc \<union>
                {n. (\<exists>r\<in>set (repo # repos). subscript_name r = Inr (JStr n)) \<and>
                    (n \<in> U \<or> found_unversioned tr ORG_NAME n)}"
  proof (intro allI impI)
    fix acc'' assume "fst res = Inr acc''"
    with 3 have "snd acc'' = snd acc' \<union>
                {n. (\<exists>r\<in>set repos. subscript_name r = Inr (JStr n)) \<and>
                    (n \<in> U \<or> found_unversioned tr ORG_NAME n)}" by blast
    with st body_continues(1) show "snd acc'' = snd acc \<union>
                {n. (\<exists>r\<in>set (repo # repos). subscript_name r = Inr (JStr n)) \<and>
                    (n \<in> U \<or> found_unversioned tr ORG_NAME n)}"
      by (auto split: if_splits)
  qed
  from a b c show ?case by blast
next
  case (scalar_text_raises repo x e repos acc log)
  show ?case by simp
next
  case (scalar_raises repo x repo_text e l repos acc log)
  from check_repo_log[OF scalar_raises(3)]
  have "\<forall>u\<in>set l. \<exists>q. u = TagsUrl ORG_NAME repo_text per_page q" .
  with scalar_raises(1,2) show ?case by auto
next
  case (scalar_continues repo x repo_text latest l repos acc log res)
  from check_repo_log[OF scalar_continues(3)]
  have lg: "\<forall>u\<in>set l. \<exists>q. u = TagsUrl ORG_NAME repo_text per_page q" .
  have ns: "\<And>s. x \<noteq> JStr s" using scalar_text_not_string[OF scalar_continues(2)] .
  from scalar_continues.IH obtain l' where
    1: "snd res = (log @ l) @ l'" and
    2: "\<forall>u\<in>set l'. \<exists>rn q. u = TagsUrl ORG_NAME rn per_page q \<and>
              (\<exists>r\<in>set repos. (subscript_name r = Inr (JStr rn) \<and> rn \<notin> U) \<or>
                 (\<exists>x. subscript_name r = Inr x \<and> scalar_text x = Some (Inr rn)))" and
    3: "\<forall>acc''. fst res = Inr acc'' \<longrightarrow>
              snd acc'' = snd acc \<union>
                {n. (\<exists>r\<in>set repos. subscript_name r = Inr (JStr n)) \<and>
                    (n \<in> U \<or> found_unversioned tr ORG_NAME n)}" by auto
  have a: "snd res = log @ (l @ l')" using 1 by simp
  have b: "\<forall>u\<in>set (l @ l'). \<exists>rn q. u = TagsUrl ORG_NAME rn per_page q \<and>
              (\<exists>r\<in>set (repo # repos). (subscript_name r = Inr (JStr rn) \<and> rn \<notin> U) \<or>
                 (\<exists>x. subscript_name r = Inr x \<and> scalar_text x = Some (Inr rn)))"
  proof
    fix u assume "u \<in> set (l @ l')"
    then consider "u \<in> set l" | "u \<in> set l'" by auto
    then show "\<exists>rn q. u = TagsUrl ORG_NAME rn per_page q \<and>
              (\<exists>r\<in>set (repo # repos). (subscript_name r = Inr (JStr rn) \<and> rn \<notin> U) \<or>
                 (\<exists>x. subscript_name r = Inr x \<and> scalar_text x = Some (Inr rn)))"
    proof cases
      case 1
      with lg scalar_continues(1,2) show ?thesis by auto
    next
      case 2
      with \<open>\<forall>u\<in>set l'. _\<close> obtain rn q where
        "u = TagsUrl ORG_NAME rn per_page q"
        "\<exists>r\<in>set repos. (subscript_name r = Inr (JStr rn) \<and> rn \<notin> U) \<or>
                 (\<exists>x. subscript_name r = Inr x \<and> scalar_text x = Some (Inr rn))" by blast
      then show ?thesis by auto
    qed
  qed
  have c: "\<forall>acc''. fst res = Inr acc'' \<longrightarrow>
              snd acc'' = snd acc \<union>
                {n. (\<exists>r\<in>set (repo # repos). subscript_name r = Inr (JStr n)) \<and>
                    (n \<in> U \<or> found_unversioned tr ORG_NAME n)}"
  proof (intro allI impI)
    fix acc'' assume "fst res = Inr acc''"
    with 3 have "snd acc'' = snd acc \<union>
                {n. (\<exists>r\<in>set repos. subscript_name r = Inr (JStr n)) \<and>
                    (n \<in> U \<or> found_unversioned tr ORG_NAME n)}" by blast
    with scalar_continues(1) ns show "snd acc'' = snd acc \<union>
                {n. (\<exists>r\<in>set (repo # repos). subscript_name r = Inr (JStr n)) \<and>
                    (n \<in> U \<or> found_unversioned tr ORG_NAME n)}"
      by auto
  qed
  from a b c show ?case by blast
qed

lemma process_extra_repos_invariant:
  "process_extra_repos tr U extra acc log = Some (r, log') \<Longrightarrow>
   \<exists>l. log' = log @ l \<and>
     (\<forall>u\<in>set l. \<exists>org rn q. u = TagsUrl org rn per_page q \<and>
        (\<exists>full\<in>set extra. full \<notin> U \<and> split_owner_repo full = Inr (org, rn))) \<and>
     (\<forall>acc'. r = Inr acc' \<longrightarrow>
        snd acc' = snd acc \<union>
          {full. full \<in> set extra \<and>
             (full \<in> U \<or>
              (\<exists>org rn. split_owner_repo full = Inr (org, rn) \<and> found_unversioned tr org rn))})"
proof (induction extra arbitrary: acc log)
  case Nil
  then show ?case by auto
next
  case (Cons full_repo rest)
  show ?case
  proof (cases "process_extra_repo tr U full_repo acc")
    case None
    with Cons.prems show ?thesis by simp
  next
    case (Some y)
    obtain c l where y: "y = (c, l)" by (cases y)
    from process_extra_repo_step[of tr U full_repo acc c l] Some y
    have lg: "\<forall>u\<in>set l. full_repo \<notin> U \<and>
            (\<exists>org repo_name q. split_owner_repo full_repo = Inr (org, repo_name) \<and>
               u = TagsUrl org repo_name per_page q)"
      and st: "\<forall>acc'. c = Inr acc' \<longrightarrow>
            snd acc' =
              (if full_repo \<in> U \<or>
                  (case split_owner_repo full_repo of
                     Inl e \<Rightarrow> False
                   | Inr (org, repo_name) \<Rightarrow> found_unversioned tr org repo_name)
               then insert full_repo (snd acc) else snd acc)" by simp_all
    have lg': "\<forall>u\<in>set l. \<exists>org rn q. u = TagsUrl org rn per_page q \<and>
        (\<exists>full\<in>set (full_repo # rest). full \<notin> U \<and> split_owner_repo full = Inr (org, rn))"
      using lg by fastforce
    show ?thesis
    proof (cases c)
      case (Inl e)
      with Cons.prems Some y have "r = Inl e" "log' = log @ l" by simp_all
      with lg' show ?thesis by simp
    next
      case (Inr acc1)
      with Cons.prems Some y
      have rec: "process_extra_repos tr U rest acc1 (log @ l) = Some (r, log')" by simp
      from Cons.IH[OF rec] obtain l' where
        1: "log' = (log @ l) @ l'" and
        2: "\<forall>u\<in>set l'. \<exists>org rn q. u = TagsUrl org rn per_page q \<and>
              (\<exists>full\<in>set rest. full \<notin> U \<and> split_owner_repo full = Inr (org, rn))" and
        3: "\<forall>acc'. r = Inr acc' \<longrightarrow>
              snd acc' = snd acc1 \<union>
                {full. full \<in> set rest \<and>
                   (full \<in> U \<or>
                    (\<exists>org rn. split_owner_repo full = Inr (org, rn) \<and>
                       found_unversioned tr org rn))}" by blast
      have s1: "snd acc1 =
              (if full_repo \<in> U \<or>
                  (\<exists>org rn. split_owner_repo full_repo = Inr (org, rn) \<and>
                     found_unversioned tr org rn)
               then insert full_repo (snd acc) else snd acc)"
        using st Inr by (auto split: sum.splits)
      have a: "log' = log @ (l @ l')" using 1 by simp
      have b: "\<forall>u\<in>set (l @ l'). \<exists>org rn q. u = TagsUrl org rn per_page q \<and>
          (\<exists>full\<in>set (full_repo # rest). full \<notin> U \<and> split_owner_repo full = Inr (org, rn))"
      proof
        fix u assume "u \<in> set (l @ l')"
        then consider "u \<in> set l" | "u \<in> set l'" by auto
        then show "\<exists>org rn q. u = TagsUrl org rn per_page q \<and>
          (\<exists>full\<in>set (full_repo # rest). full \<notin> U \<and> split_owner_repo full = Inr (org, rn))"
        proof cases
          case 1
          with lg' show ?thesis by blast
        next
          case 2
          with \<open>\<forall>u\<in>set l'. _\<close> obtain org rn q where
            "u = TagsUrl org rn per_page q"
            "\<exists>full\<in>set rest. full \<notin> U \<and> split_owner_repo full = Inr (org, rn)" by blast
          then show ?thesis by auto
        qed
      qed
      have c: "\<forall>acc'. r = Inr acc' \<longrightarrow>
        snd acc' = snd acc \<union>
          {full. full \<in> set (full_repo # rest) \<and>
             (full \<in> U \<or>
              (\<exists>org rn. split_owner_repo full = Inr (org, rn) \<and> found_unversioned tr org rn))}"
      proof (intro allI impI)
        fix acc' assume "r = Inr acc'"
        with 3 have "snd acc' = snd acc1 \<union>
                {full. full \<in> set rest \<and>
                   (full \<in> U \<or>
                    (\<exists>org rn. split_owner_repo full = Inr (org, rn) \<and>
                       found_unversioned tr org rn))}" by blast
        with s1 show "snd acc' = snd acc \<union>
          {full. full \<in> set (full_repo # rest) \<and>
             (full \<in> U \<or>
              (\<exists>org rn. split_owner_repo full = Inr (org, rn) \<and> found_unversioned tr org rn))}"
          by (auto split: if_splits)
      qed
      from a b c show ?thesis by blast
    qed
  qed
qed

lemma fetch_repos_loop_log:
  assumes "fetch_repos_loop tr org page repos log = Some y"
  shows "\<exists>l. snd y = log @ l \<and> (\<forall>u\<in>set l. \<exists>q. u = ReposUrl org per_page q)"
proof (rule fetch_repos_loop.raw_induct[where
      P = "\<lambda>tr org page repos log y.
             \<exists>l. snd y = log @ l \<and> (\<forall>u\<in>set l. \<exists>q. u = ReposUrl org per_page q)",
      OF _ assms])
  fix f :: "transport \<Rightarrow> string \<Rightarrow> nat \<Rightarrow> json list \<Rightarrow> url list \<Rightarrow>
      ((error + json list) \<times> url list) option"
  fix tr org page repos log y
  assume IH: "\<And>tr org page repos log y. f tr org page repos log = Some y \<Longrightarrow>
      \<exists>l. snd y = log @ l \<and> (\<forall>u\<in>set l. \<exists>q. u = ReposUrl org per_page q)"
  let ?u = "ReposUrl org per_page page"
  assume body: "(let u = ReposUrl org per_page page; log' = log @ [u] in
      case tr u of
        Inl e \<Rightarrow> Some (Inl e, log')
      | Inr page_repos \<Rightarrow>
          if \<not> py_truthy page_repos then Some (Inr repos, log')
          else (case py_iter page_repos of
                  Inl e \<Rightarrow> Some (Inl e, log')
                | Inr rs \<Rightarrow>
                    (case py_len page_repos of
                       Inl e \<Rightarrow> Some (Inl e, log')
                     | Inr n \<Rightarrow>
                         if n < per_page then Some (Inr (repos @ rs), log')
                         else f tr org (page + 1) (repos @ rs) log'))) = Some y"
  have base: "\<exists>l. log @ [?u] = log @ l \<and> (\<forall>u\<in>set l. \<exists>q. u = ReposUrl org per_page q)"
    by auto
  have step: "\<exists>l. snd y = log @ l \<and> (\<forall>u\<in>set l. \<exists>q. u = ReposUrl org per_page q)"
    if "f tr org (page + 1) repos' (log @ [?u]) = Some y" for repos'
  proof -
    from IH[OF that] obtain l where l: "snd y = (log @ [?u]) @ l"
      "\<forall>u\<in>set l. \<exists>q. u = ReposUrl org per_page q" by blast
    then have "snd y = log @ (?u # l) \<and> (\<forall>u\<in>set (?u # l). \<exists>q. u = ReposUrl org per_page q)"
      by auto
    then show ?thesis by blast
  qed
  from body show "\<exists>l. snd y = log @ l \<and> (\<forall>u\<in>set l. \<exists>q. u = ReposUrl org per_page q)"
    using base step
    by (auto simp: Let_def split: sum.splits if_splits)
qed

lemma fetch_repos_log:
  "fetch_repos tr org = Some (res, l) \<Longrightarrow> \<forall>u\<in>set l. \<exists>q. u = ReposUrl org per_page q"
  unfolding fetch_repos_def using fetch_repos_loop_log[of tr org 1 "[]" "[]" "(res, l)"] by auto

lemma org_loop_requests:
  assumes "org_loop tr U repos acc log (r, log')"
  shows "\<exists>l. log' = log @ l \<and>
           (\<forall>u\<in>set l. \<exists>org rn q. u = TagsUrl org rn per_page q \<and>
              ((org = ORG_NAME \<and>
                (\<exists>r\<in>set repos. (subscript_name r = Inr (JStr rn) \<and> rn \<notin> U) \<or>
                   (\<exists>x. subscript_name r = Inr x \<and> scalar_text x = Some (Inr rn)))) \<or>
               (\<exists>full\<in>set extra. full \<notin> U \<and> split_owner_repo full = Inr (org, rn))))"
proof -
  from org_loop_invariant[OF assms] obtain l where
    1: "log' = log @ l" and
    2: "\<forall>u\<in>set l. \<exists>rn q. u = TagsUrl ORG_NAME rn per_page q \<and>
              (\<exists>r\<in>set repos. (subscript_name r = Inr (JStr rn) \<and> rn \<notin> U) \<or>
                 (\<exists>x. subscript_name r = Inr x \<and> scalar_text x = Some (Inr rn)))" by auto
  have "\<forall>u\<in>set l. \<exists>org rn q. u = TagsUrl org rn per_page q \<and>
              ((org = ORG_NAME \<and>
                (\<exists>r\<in>set repos. (subscript_name r = Inr (JStr rn) \<and> rn \<notin> U) \<or>
                   (\<exists>x. subscript_name r = Inr x \<and> scalar_text x = Some (Inr rn)))) \<or>
               (\<exists>full\<in>set extra. full \<notin> U \<and> split_owner_repo full = Inr (org, rn)))"
  proof
    fix u assume "u \<in> set l"
    with 2 obtain rn q where "u = TagsUrl ORG_NAME rn per_page q"
      "\<exists>r\<in>set repos. (subscript_name r = Inr (JStr rn) \<and> rn \<notin> U) \<or>
                 (\<exists>x. subscript_name r = Inr x \<and> scalar_text x = Some (Inr rn))" by blast
    then show "\<exists>org rn q. u = TagsUrl org rn per_page q \<and>
              ((org = ORG_NAME \<and>
                (\<exists>r\<in>set repos. (subscript_name r = Inr (JStr rn) \<and> rn \<notin> U) \<or>
                   (\<exists>x. subscript_name r = Inr x \<and> scalar_text x = Some (Inr rn)))) \<or>
               (\<exists>full\<in>set extra. full \<notin> U \<and> split_owner_repo full = Inr (org, rn)))"
      by blast
  qed
  with 1 show ?thesis by blast
qed

lemma org_loop_collected:
  assumes "org_loop tr U repos acc log (Inr acc', log')"
  shows "snd acc' = snd acc \<union>
           {n. (\<exists>r\<in>set repos. subscript_name r = Inr (JStr n)) \<and>
               (n \<in> U \<or> found_unversioned tr ORG_NAME n)}"
  using org_loop_invariant[OF assms] by auto

lemma both_loops:
  assumes o: "org_loop tr U repos ([], {}) log0 (Inr acc1, log1)"
    and e: "(if extra \<noteq> [] then process_extra_repos tr U extra acc1 log1
             else Some (Inr acc1, log1)) = Some (r, log2)"
  shows "\<exists>l. log2 = log0 @ l \<and>
           (\<forall>u\<in>set l. \<exists>org rn q. u = TagsUrl org rn per_page q \<and>
              ((org = ORG_NAME \<and>
                (\<exists>r\<in>set repos. (subscript_name r = Inr (JStr rn) \<and> rn \<notin> U) \<or>
                   (\<exists>x. subscript_name r = Inr x \<and> scalar_text x = Some (Inr rn)))) \<or>
               (\<exists>full\<in>set extra. full \<notin> U \<and> split_owner_repo full = Inr (org, rn)))) \<and>
           (\<forall>acc2. r = Inr acc2 \<longrightarrow>
              snd acc2 =
                {n. (\<exists>r\<in>set repos. subscript_name r = Inr (JStr n)) \<and>
                    (n \<in> U \<or> found_unversioned tr ORG_NAME n)} \<union>
                {full. full \<in> set extra \<and>
                   (full \<in> U \<or>
                    (\<exists>org rn. split_owner_repo full = Inr (org, rn) \<and>
                       found_unversioned tr org rn))})"
proof -
  from org_loop_requests[OF o, of extra] obtain l1 where
    l1: "log1 = log0 @ l1" and
    a1: "\<forall>u\<in>set l1. \<exists>org rn q. u = TagsUrl org rn per_page q \<and>
              ((org = ORG_NAME \<and>
                (\<exists>r\<in>set repos. (subscript_name r = Inr (JStr rn) \<and> rn \<notin> U) \<or>
                   (\<exists>x. subscript_name r = Inr x \<and> scalar_text x = Some (Inr rn)))) \<or>
               (\<exists>full\<in>set extra. full \<notin> U \<and> split_owner_repo full = Inr (org, rn)))" by blast
  have s1: "snd acc1 =
      {n. (\<exists>r\<in>set repos. subscript_name r = Inr (JStr n)) \<and>
          (n \<in> U \<or> found_unversioned tr ORG_NAME n)}"
    using org_loop_collected[OF o] by simp
  have pe: "process_extra_repos tr U extra acc1 log1 = Some (r, log2)"
  proof (cases "extra = []")
    case True
    with e show ?thesis by simp
  next
    case False
    with e show ?thesis by simp
  qed
  from process_extra_repos_invariant[OF pe] obtain l2 where
    l2: "log2 = log1 @ l2" and
    a2: "\<forall>u\<in>set l2. \<exists>org rn q. u = TagsUrl org rn per_page q \<and>
        (\<exists>full\<in>set extra. full \<notin> U \<and> split_owner_repo full = Inr (org, rn))" and
    s2: "\<forall>acc'. r = Inr acc' \<longrightarrow>
        snd acc' = snd acc1 \<union>
          {full. full \<in> set extra \<and>
             (full \<in> U \<or>
              (\<exists>org rn. split_owner_repo full = Inr (org, rn) \<and> found_unversioned tr org rn))}"
    by blast
  have a: "log2 = log0 @ (l1 @ l2)" using l1 l2 by simp
  have b: "\<forall>u\<in>set (l1 @ l2). \<exists>org rn q. u = TagsUrl org rn per_page q \<and>
              ((org = ORG_NAME \<and>
                (\<exists>r\<in>set repos. (subscript_name r = Inr (JStr rn) \<and> rn \<notin> U) \<or>
                   (\<exists>x. subscript_name r = Inr x \<and> scalar_text x = Some (Inr rn)))) \<or>
               (\<exists>full\<in>set extra. full \<notin> U \<and> split_owner_repo full = Inr (org, rn)))"
  proof
    fix u assume "u \<in> set (l1 @ l2)"
    then consider "u \<in> set l1" | "u \<in> set l2" by auto
    then show "\<exists>org rn q. u = TagsUrl org rn per_page q \<and>
              ((org = ORG_NAME \<and>
                (\<exists>r\<in>set repos. (subscript_name r = Inr (JStr rn) \<and> rn \<notin> U) \<or>
                   (\<exists>x. subscript_name r = Inr x \<and> scalar_text x = Some (Inr rn)))) \<or>
               (\<exists>full\<in>set extra. full \<notin> U \<and> split_owner_repo full = Inr (org, rn)))"
    proof cases
      case 1
      with a1 show ?thesis by blast
    next
      case 2
      with a2 obtain org rn q where "u = TagsUrl org rn per_page q"
        "\<exists>full\<in>set extra. full \<notin> U \<and> split_owner_repo full = Inr (org, rn)" by blast
      then show ?thesis by blast
    qed
  qed
  have c: "\<forall>acc2. r = Inr acc2 \<longrightarrow>
              snd acc2 =
                {n. (\<exists>r\<in>set repos. subscript_name r = Inr (JStr n)) \<and>
                    (n \<in> U \<or> found_unversioned tr ORG_NAME n)} \<union>
                {full. full \<in> set extra \<and>
                   (full \<in> U \<or>
                    (\<exists>org rn. split_owner_repo full = Inr (org, rn) \<and>
                       found_unversioned tr org rn))}"
    using s2 s1 by simp
  from a b c show ?thesis by blast
qed

lemma check_repo_short_page:
  assumes "tr (TagsUrl org repo per_page 1) = Inr (JArr pg)" "length pg < per_page"
    "names_of pg = Inr a"
  shows "check_repo tr org repo = Some (select_latest a, [TagsUrl org repo per_page 1])"
proof -
  have "fetch_tags_loop tr org repo 1 [] [] =
      Some (Inr ([] @ a), [] @ [TagsUrl org repo per_page 1])"
    using assms by (rule fetch_tags_loop_short_page)
  then show ?thesis by (simp add: check_repo_def fetch_tags_def)
qed

lemma org_loop_deterministic:
  assumes "org_loop tr U repos acc log res" "org_loop tr U repos acc log res'"
  shows "res = res'"
  using assms
proof (induction arbitrary: res' rule: org_loop.induct)
  case (finished acc log)
  then show ?case by (auto elim: org_loop.cases)
next
  case (subscript_raises repo e repos acc log)
  from subscript_raises(2) subscript_raises(1) show ?case
    by (cases rule: org_loop.cases) auto
next
  case (list_unhashable repo xs repos acc log)
  from list_unhashable(2) list_unhashable(1) show ?case
    by (cases rule: org_loop.cases) auto
next
  case (dict_unhashable repo kvs repos acc log)
  from dict_unhashable(2) dict_unhashable(1) show ?case
    by (cases rule: org_loop.cases) auto
next
  case (body_raises repo repo_name acc e l repos log)
  from body_raises(3) body_raises(1,2) show ?case
    by (cases rule: org_loop.cases) auto
next
  case (body_continues repo repo_name acc acc' l repos log res)
  from body_continues(5) body_continues(1,2) body_continues.IH show ?case
    by (cases rule: org_loop.cases) auto
next
  case (scalar_text_raises repo x e repos acc log)
  from scalar_text_raises(3) scalar_text_raises(1,2) show ?case
    by (cases rule: org_loop.cases) auto
next
  case (scalar_raises repo x repo_text e l repos acc log)
  from scalar_raises(4) scalar_raises(1,2,3) show ?case
    by (cases rule: org_loop.cases) auto
next
  case (scalar_continues repo x repo_text latest l repos acc log res)
  from scalar_continues(7) scalar_continues(1,2,3,4) scalar_continues.IH show ?case
    by (cases rule: org_loop.cases) auto
qed

lemma run_deterministic:
  assumes "run tr sub extra fs res" "run tr sub extra fs res'"
  shows "res = res'"
  using assms(1)
proof (cases rule: run.cases)
  case (fetch_repos_raises e log0)
  with assms(2) show ?thesis by (cases rule: run.cases) auto
next
  case (org_loop_raises repos log0 e log1)
  from assms(2) show ?thesis
  proof (cases rule: run.cases)
    case (fetch_repos_raises e' log0')
    with org_loop_raises show ?thesis by simp
  next
    case (org_loop_raises repos' log0' e' log1')
    with \<open>fetch_repos tr ORG_NAME = Some (Inr repos, log0)\<close>
      \<open>org_loop tr (load_unversioned fs) repos ([], {}) log0 (Inl e, log1)\<close>
      \<open>res = (Raised e, fs, log1)\<close>
    show ?thesis by (auto dest: org_loop_deterministic)
  next
    case (extra_loop_raises repos' log0' acc1 log1' e' log2)
    with \<open>fetch_repos tr ORG_NAME = Some (Inr repos, log0)\<close>
      \<open>org_loop tr (load_unversioned fs) repos ([], {}) log0 (Inl e, log1)\<close>
    show ?thesis by (auto dest: org_loop_deterministic)
  next
    case (writes repos' log0' acc1 log1' versions new_unversioned log2 out fs')
    with \<open>fetch_repos tr ORG_NAME = Some (Inr repos, log0)\<close>
      \<open>org_loop tr (load_unversioned fs) repos ([], {}) log0 (Inl e, log1)\<close>
    show ?thesis by (auto dest: org_loop_deterministic)
  qed
next
  case (extra_loop_raises repos log0 acc1 log1 e log2)
  from assms(2) show ?thesis
  proof (cases rule: run.cases)
    case (fetch_repos_raises e' log0')
    with extra_loop_raises show ?thesis by simp
  next
    case (org_loop_raises repos' log0' e' log1')
    with extra_loop_raises(2,3) show ?thesis by (auto dest: org_loop_deterministic)
  next
    case (extra_loop_raises repos' log0' acc1' log1' e' log2')
    with \<open>fetch_repos tr ORG_NAME = Some (Inr repos, log0)\<close>
      \<open>org_loop tr (load_unversioned fs) repos ([], {}) log0 (Inr acc1, log1)\<close>
      \<open>process_extra_repos tr (load_unversioned fs) extra acc1 log1 = Some (Inl e, log2)\<close>
      \<open>res = (Raised e, fs, log2)\<close>
    show ?thesis by (auto dest: org_loop_deterministic)
  next
    case (writes repos' log0' acc1' log1' versions new_unversioned log2' out fs')
    with \<open>fetch_repos tr ORG_NAME = Some (Inr repos, log0)\<close>
      \<open>org_loop tr (load_unversioned fs) repos ([], {}) log0 (Inr acc1, log1)\<close>
      \<open>process_extra_repos tr (load_unversioned fs) extra acc1 log1 = Some (Inl e, log2)\<close>
      \<open>extra \<noteq> []\<close>
    show ?thesis by (auto dest: org_loop_deterministic)
  qed
next
  case (writes repos log0 acc1 log1 versions new_unversioned log2 out fs')
  from assms(2) show ?thesis
  proof (cases rule: run.cases)
    case (fetch_repos_raises e' log0')
    with writes show ?thesis by simp
  next
    case (org_loop_raises repos' log0' e' log1')
    with writes(2,3) show ?thesis by (auto dest: org_loop_deterministic)
  next
    case (extra_loop_raises repos' log0' acc1' log1' e' log2')
    with writes(2,3,4) show ?thesis by (auto dest: org_loop_deterministic)
  next
    case (writes repos' log0' acc1' log1' versions' new_unversioned' log2' out' fs'')
    with \<open>fetch_repos tr ORG_NAME = Some (Inr repos, log0)\<close>
      \<open>org_loop tr (load_unversioned fs) repos ([], {}) log0 (Inr acc1, log1)\<close>
      \<open>(if extra \<noteq> [] then process_extra_repos tr (load_unversioned fs) extra acc1 log1
         else Some (Inr acc1, log1)) = Some (Inr (versions, new_unversioned), log2)\<close>
      \<open>write_outputs sub versions new_unversioned fs = (out, fs')\<close>
      \<open>res = (out, fs', log2)\<close>
    show ?thesis by (auto dest: org_loop_deterministic)
  qed
qed

lemma check_repo_returns:
  "fetch_tags tr org rn \<noteq> None \<Longrightarrow> \<exists>c l. check_repo tr org rn = Some (c, l)"
  by (auto simp: check_repo_def split: option.splits sum.splits prod.splits)

lemma process_org_repo_returns:
  assumes "fetch_tags tr ORG_NAME rn \<noteq> None"
  shows "\<exists>r l. process_org_repo tr U rn acc = Some (r, l)"
  using check_repo_returns[OF assms]
  by (auto simp: process_org_repo_def split: sum.splits)

lemma process_extra_repo_returns:
  assumes "\<forall>org rn. fetch_tags tr org rn \<noteq> None"
  shows "\<exists>r l. process_extra_repo tr U full acc = Some (r, l)"
proof (cases "split_owner_repo full")
  case (Inl e)
  then show ?thesis by (simp add: process_extra_repo_def)
next
  case (Inr p)
  obtain org rn where p: "p = (org, rn)" by (cases p)
  from assms have "fetch_tags tr org rn \<noteq> None" by simp
  from check_repo_returns[OF this] obtain c l where "check_repo tr org rn = Some (c, l)" by blast
  with Inr p show ?thesis by (cases c) (simp_all add: process_extra_repo_def)
qed

lemma process_extra_repos_returns:
  assumes "\<forall>org rn. fetch_tags tr org rn \<noteq> None"
  shows "\<exists>r l. process_extra_repos tr U extra acc log = Some (r, l)"
proof (induction extra arbitrary: acc log)
  case Nil
  show ?case by simp
next
  case (Cons full rest)
  from process_extra_repo_returns[OF assms, of U full acc] obtain r l
    where s: "process_extra_repo tr U full acc = Some (r, l)" by blast
  show ?case
  proof (cases r)
    case (Inl e)
    with s show ?thesis by simp
  next
    case (Inr acc')
    with s Cons.IH[of acc' "log @ l"] show ?thesis by simp
  qed
qed

lemma org_loop_returns:
  assumes t: "\<forall>org rn. fetch_tags tr org rn \<noteq> None"
    and n: "\<forall>r\<in>set repos. \<forall>x. subscript_name r = Inr x \<longrightarrow>
              (\<exists>s. x = JStr s) \<or> (\<exists>xs. x = JArr xs) \<or> (\<exists>kvs. x = JObj kvs)"
  shows "\<exists>res. org_loop tr U repos acc log res"
  using n
proof (induction repos arbitrary: acc log)
  case Nil
  show ?case by (blast intro: org_loop.finished)
next
  case (Cons repo repos)
  show ?case
  proof (cases "subscript_name repo")
    case (Inl e)
    then show ?thesis by (blast intro: org_loop.subscript_raises)
  next
    case (Inr x)
    with Cons.prems consider s where "x = JStr s" | xs where "x = JArr xs"
      | kvs where "x = JObj kvs" by auto
    then show ?thesis
    proof cases
      case 1
      from t have "fetch_tags tr ORG_NAME s \<noteq> None" by simp
      from process_org_repo_returns[OF this, of U acc] obtain r l
        where p: "process_org_repo tr U s acc = Some (r, l)" by blast
      show ?thesis
      proof (cases r)
        case (Inl e)
        with p Inr 1 show ?thesis by (blast intro: org_loop.body_raises)
      next
        case r: (Inr acc')
        from Cons.prems have "\<forall>r\<in>set repos. \<forall>x. subscript_name r = Inr x \<longrightarrow>
              (\<exists>s. x = JStr s) \<or> (\<exists>xs. x = JArr xs) \<or> (\<exists>kvs. x = JObj kvs)" by simp
        from Cons.IH[OF this, of acc' "log @ l"] obtain res
          where "org_loop tr U repos acc' (log @ l) res" by blast
        with p Inr 1 r show ?thesis by (blast intro: org_loop.body_continues)
      qed
    next
      case 2
      with Inr show ?thesis by (blast intro: org_loop.list_unhashable)
    next
      case 3
      with Inr show ?thesis by (blast intro: org_loop.dict_unhashable)
    qed
  qed
qed

lemma run_returns:
  assumes t: "\<forall>org rn. fetch_tags tr org rn \<noteq> None"
    and f: "fetch_repos tr ORG_NAME = Some (r0, log0)"
    and n: "\<forall>repos. r0 = Inr repos \<longrightarrow>
              (\<forall>r\<in>set repos. \<forall>x. subscript_name r = Inr x \<longrightarrow>
                 (\<exists>s. x = JStr s) \<or> (\<exists>xs. x = JArr xs) \<or> (\<exists>kvs. x = JObj kvs))"
  shows "\<exists>res. run tr sub extra fs res"
proof (cases r0)
  case (Inl e)
  with f show ?thesis by (blast intro: run.fetch_repos_raises)
next
  case (Inr repos)
  with n have n': "\<forall>r\<in>set repos. \<forall>x. subscript_name r = Inr x \<longrightarrow>
                 (\<exists>s. x = JStr s) \<or> (\<exists>xs. x = JArr xs) \<or> (\<exists>kvs. x = JObj kvs)" by simp
  from org_loop_returns[OF t n', of "load_unversioned fs" "([], {})" log0] obtain res1
    where o: "org_loop tr (load_unversioned fs) repos ([], {}) log0 res1" by blast
  obtain r1 log1 where res1: "res1 = (r1, log1)" by (cases res1)
  have f': "fetch_repos tr ORG_NAME = Some (Inr repos, log0)" using f Inr by simp
  show ?thesis
  proof (cases r1)
    case (Inl e)
    with o res1 f' show ?thesis by (blast intro: run.org_loop_raises)
  next
    case r1: (Inr acc1)
    have o': "org_loop tr (load_unversioned fs) repos ([], {}) log0 (Inr acc1, log1)"
      using o res1 r1 by simp
    from process_extra_repos_returns[OF t, of "load_unversioned fs" extra acc1 log1]
    obtain r2 log2 where
      e: "process_extra_repos tr (load_unversioned fs) extra acc1 log1 = Some (r2, log2)"
      by blast
    show ?thesis
    proof (cases r2)
      case (Inl e2)
      have "extra \<noteq> []" using e Inl by (cases extra) auto
      with f' o' e Inl show ?thesis by (blast intro: run.extra_loop_raises)
    next
      case r2: (Inr acc2)
      obtain versions new_unversioned where a: "acc2 = (versions, new_unversioned)"
        by (cases acc2)
      have e': "(if extra \<noteq> [] then process_extra_repos tr (load_unversioned fs) extra acc1 log1
                 else Some (Inr acc1, log1)) = Some (Inr (versions, new_unversioned), log2)"
        using e r2 a by (cases extra) auto
      obtain out fs' where w: "write_outputs sub versions new_unversioned fs = (out, fs')"
        by (cases "write_outputs sub versions new_unversioned fs")
      from run.writes[OF f' o' e' w] show ?thesis by blast
    qed
  qed
qed

subsection \<open>The selector and the limit of the integer conversion\<close>

lemma vinteger_fits_iff:
  "vinteger_fits tags \<longleftrightarrow>
     (\<forall>t\<in>set tags. \<forall>g. match_vinteger (py_strip t) = Some g \<longrightarrow> length g \<le> max_str_digits)"
  unfolding vinteger_fits_def list_all_iff by (auto split: option.splits)

lemma integer_fits_iff:
  "integer_fits tags \<longleftrightarrow>
     (\<forall>t\<in>set tags. \<forall>g. match_integer (py_strip t) = Some g \<longrightarrow> length g \<le> max_str_digits)"
  unfolding integer_fits_def list_all_iff by (auto split: option.splits)

lemma major_minor_fits_iff:
  "major_minor_fits tags \<longleftrightarrow>
     (\<forall>t\<in>set tags. \<forall>g1 g2. match_major_minor (py_strip t) = Some (g1, g2) \<longrightarrow>
         length g1 \<le> max_str_digits \<and> length g2 \<le> max_str_digits)"
  unfolding major_minor_fits_def list_all_iff by (auto split: option.splits)

lemma vinteger_tags_eq:
  "vinteger_tags tags = (if vinteger_fits tags then Inr (vinteger_pool tags) else Inl ValueError)"
  by (induction tags)
    (auto simp: vinteger_fits_def vinteger_pool_def py_int_def split: option.splits)

lemma integer_tags_eq:
  "integer_tags tags = (if integer_fits tags then Inr (integer_pool tags) else Inl ValueError)"
  by (induction tags)
    (auto simp: integer_fits_def integer_pool_def py_int_def split: option.splits)

lemma major_minor_tags_eq:
  "major_minor_tags tags =
     (if major_minor_fits tags then Inr (major_minor_pool tags) else Inl ValueError)"
  by (induction tags)
    (auto simp: major_minor_fits_def major_minor_pool_def py_int_def split: option.splits)

lemma get_latest_version_tag_eq:
  "get_latest_version_tag tags =
     (if \<not> vinteger_fits tags then Inl ValueError
      else if vinteger_pool tags \<noteq> [] then Inr (select_from_pools tags)
      else if \<not> integer_fits tags then Inl ValueError
      else if integer_pool tags \<noteq> [] then Inr (select_from_pools tags)
      else if \<not> major_minor_fits tags then Inl ValueError
      else Inr (select_from_pools tags))"
  unfolding get_latest_version_tag_def vinteger_tags_eq integer_tags_eq major_minor_tags_eq
    select_from_pools_def
  by simp

lemma py_isspace_iff:
  "py_isspace c \<longleftrightarrow>
     (of_char c :: nat) \<in> {9, 10, 11, 12, 13, 28, 29, 30, 31, 32, 133, 160}"
  unfolding py_isspace_def Let_def by (simp; arith)

lemma py_strip_sandwich:
  assumes a: "\<forall>c\<in>set a. py_isspace c" and b: "\<forall>c\<in>set b. py_isspace c"
    and core: "core = [] \<or> (\<not> py_isspace (hd core) \<and> \<not> py_isspace (last core))"
  shows "py_strip (a @ core @ b) = core"
proof (cases "core = []")
  case True
  have d: "dropWhile py_isspace (a @ b) = []" using a b by (simp add: dropWhile_eq_Nil_conv)
  show ?thesis unfolding py_strip_def True append_Nil d by simp
next
  case False
  with core have h: "\<not> py_isspace (hd core)" and l: "\<not> py_isspace (last core)" by simp_all
  have 1: "dropWhile py_isspace (a @ core @ b) = core @ b"
  proof -
    have "dropWhile py_isspace (a @ (core @ b)) = dropWhile py_isspace (core @ b)"
    proof (rule dropWhile_append2)
      fix x assume "x \<in> set a"
      then show "py_isspace x" using a by simp
    qed
    also have "\<dots> = core @ b" using False h by (cases core) simp_all
    finally show ?thesis .
  qed
  have 2: "dropWhile py_isspace (rev (core @ b)) = rev core"
  proof -
    have "rev (core @ b) = rev b @ rev core" by simp
    moreover have "dropWhile py_isspace (rev b @ rev core) = dropWhile py_isspace (rev core)"
    proof (rule dropWhile_append2)
      fix x assume "x \<in> set (rev b)"
      then show "py_isspace x" using b by simp
    qed
    moreover have "dropWhile py_isspace (rev core) = rev core"
      using False l by (cases core rule: rev_cases) simp_all
    ultimately show ?thesis by simp
  qed
  show ?thesis unfolding py_strip_def 1 2 by simp
qed

lemma py_strip_self:
  "s \<noteq> [] \<Longrightarrow> \<not> py_isspace (hd s) \<Longrightarrow> \<not> py_isspace (last s) \<Longrightarrow> py_strip s = s"
  using py_strip_sandwich[of "[]" "[]" s] by simp

lemma match_vinteger_digits:
  "ds \<noteq> [] \<Longrightarrow> \<forall>c\<in>set ds. is_digit c \<Longrightarrow> match_vinteger (CHR ''v'' # ds) = Some ds"
  by (simp add: match_vinteger_def at_dollar_def takeWhile_eq_all_conv[THEN iffD2]
      dropWhile_eq_Nil_conv[THEN iffD2])

lemma match_integer_digits:
  "ds \<noteq> [] \<Longrightarrow> \<forall>c\<in>set ds. is_digit c \<Longrightarrow> match_integer ds = Some ds"
  by (simp add: match_integer_def at_dollar_def takeWhile_eq_all_conv[THEN iffD2]
      dropWhile_eq_Nil_conv[THEN iffD2])

lemma is_digit_not_space: "is_digit c \<Longrightarrow> \<not> py_isspace c"
  by (auto simp: is_digit_def py_isspace_def Let_def)

lemma py_strip_v_digits:
  assumes "ds \<noteq> []" "\<forall>c\<in>set ds. is_digit c"
  shows "py_strip (CHR ''v'' # ds) = CHR ''v'' # ds"
proof (rule py_strip_self)
  show "CHR ''v'' # ds \<noteq> []" by simp
  show "\<not> py_isspace (hd (CHR ''v'' # ds))" by (simp add: py_isspace_def)
  have "last (CHR ''v'' # ds) = last ds" using assms(1) by simp
  moreover have "last ds \<in> set ds" using assms(1) by simp
  ultimately show "\<not> py_isspace (last (CHR ''v'' # ds))"
    using assms(2) is_digit_not_space by metis
qed

lemma py_strip_digits:
  assumes "ds \<noteq> []" "\<forall>c\<in>set ds. is_digit c"
  shows "py_strip ds = ds"
proof (rule py_strip_self)
  show "ds \<noteq> []" by fact
  have "hd ds \<in> set ds" "last ds \<in> set ds" using assms(1) by simp_all
  then show "\<not> py_isspace (hd ds)" "\<not> py_isspace (last ds)"
    using assms(2) is_digit_not_space by blast+
qed

lemma no_vinteger_fits: "\<forall>t\<in>set tags. \<not> is_vinteger (py_strip t) \<Longrightarrow> vinteger_fits tags"
  by (auto simp: vinteger_fits_iff is_vinteger_def)

lemma no_integer_fits: "\<forall>t\<in>set tags. \<not> is_integer (py_strip t) \<Longrightarrow> integer_fits tags"
  by (auto simp: integer_fits_iff is_integer_def)

lemma no_major_minor_fits:
  "\<forall>t\<in>set tags. \<not> is_major_minor (py_strip t) \<Longrightarrow> major_minor_fits tags"
  by (auto simp: major_minor_fits_iff is_major_minor_def)

lemma get_latest_vinteger_case:
  assumes "\<exists>t\<in>set tags. is_vinteger (py_strip t)"
  shows "get_latest_version_tag tags =
         (if vinteger_fits tags then Inr (select_from_pools tags) else Inl ValueError)"
proof -
  from assms have "vinteger_pool tags \<noteq> []" by (simp add: vinteger_pool_empty_iff)
  then show ?thesis by (simp add: get_latest_version_tag_eq)
qed

lemma get_latest_integer_case:
  assumes "\<forall>t\<in>set tags. \<not> is_vinteger (py_strip t)" "\<exists>t\<in>set tags. is_integer (py_strip t)"
  shows "get_latest_version_tag tags =
         (if integer_fits tags then Inr (select_from_pools tags) else Inl ValueError)"
proof -
  from assms have "vinteger_pool tags = []" "integer_pool tags \<noteq> []"
    by (simp_all add: vinteger_pool_empty_iff integer_pool_empty_iff)
  then show ?thesis using no_vinteger_fits[OF assms(1)] by (simp add: get_latest_version_tag_eq)
qed

lemma get_latest_major_minor_case:
  assumes "\<forall>t\<in>set tags. \<not> is_vinteger (py_strip t) \<and> \<not> is_integer (py_strip t)"
  shows "get_latest_version_tag tags =
         (if major_minor_fits tags then Inr (select_from_pools tags) else Inl ValueError)"
proof -
  from assms have "vinteger_pool tags = []" "integer_pool tags = []"
    by (simp_all add: vinteger_pool_empty_iff integer_pool_empty_iff)
  moreover have "vinteger_fits tags" "integer_fits tags"
    using assms no_vinteger_fits no_integer_fits by blast+
  ultimately show ?thesis by (simp add: get_latest_version_tag_eq)
qed

subsection \<open>The selected tag is maximal\<close>

lemma select_vinteger_max:
  assumes "vinteger_pool tags \<noteq> []"
  shows "\<exists>r g. select_from_pools tags = Some r \<and> r \<in> py_strip ` set tags \<and>
           match_vinteger r = Some g \<and>
           (\<forall>t\<in>set tags. \<forall>g'. match_vinteger (py_strip t) = Some g' \<longrightarrow>
               digits_value g' \<le> digits_value g)"
proof -
  from select_vinteger[OF assms] obtain us t vs g where
    tags: "tags = us @ t # vs" and res: "select_from_pools tags = Some (py_strip t)"
    and g: "match_vinteger (py_strip t) = Some g"
    and lt: "\<forall>u\<in>set us. \<forall>g'. match_vinteger (py_strip u) = Some g' \<longrightarrow> digits_value g' < digits_value g"
    and le: "\<forall>v\<in>set vs. \<forall>g'. match_vinteger (py_strip v) = Some g' \<longrightarrow> digits_value g' \<le> digits_value g"
    by blast
  have mem: "py_strip t \<in> py_strip ` set tags" using tags by simp
  have "\<forall>x\<in>set tags. \<forall>g'. match_vinteger (py_strip x) = Some g' \<longrightarrow> digits_value g' \<le> digits_value g"
  proof (intro ballI allI impI)
    fix x g' assume x: "x \<in> set tags" and m: "match_vinteger (py_strip x) = Some g'"
    from x tags have "x \<in> set us \<or> x = t \<or> x \<in> set vs" by auto
    then show "digits_value g' \<le> digits_value g"
    proof (elim disjE)
      assume "x \<in> set us" with lt m show ?thesis by (metis order_less_imp_le)
    next
      assume "x = t" with g m show ?thesis by simp
    next
      assume "x \<in> set vs" with le m show ?thesis by blast
    qed
  qed
  with res mem g show ?thesis by blast
qed

lemma select_integer_max:
  assumes "vinteger_pool tags = []" "integer_pool tags \<noteq> []"
  shows "\<exists>r g. select_from_pools tags = Some r \<and> r \<in> py_strip ` set tags \<and>
           match_integer r = Some g \<and>
           (\<forall>t\<in>set tags. \<forall>g'. match_integer (py_strip t) = Some g' \<longrightarrow>
               digits_value g' \<le> digits_value g)"
proof -
  from select_integer[OF assms] obtain us t vs g where
    tags: "tags = us @ t # vs" and res: "select_from_pools tags = Some (py_strip t)"
    and g: "match_integer (py_strip t) = Some g"
    and lt: "\<forall>u\<in>set us. \<forall>g'. match_integer (py_strip u) = Some g' \<longrightarrow> digits_value g' < digits_value g"
    and le: "\<forall>v\<in>set vs. \<forall>g'. match_integer (py_strip v) = Some g' \<longrightarrow> digits_value g' \<le> digits_value g"
    by blast
  have mem: "py_strip t \<in> py_strip ` set tags" using tags by simp
  have "\<forall>x\<in>set tags. \<forall>g'. match_integer (py_strip x) = Some g' \<longrightarrow> digits_value g' \<le> digits_value g"
  proof (intro ballI allI impI)
    fix x g' assume x: "x \<in> set tags" and m: "match_integer (py_strip x) = Some g'"
    from x tags have "x \<in> set us \<or> x = t \<or> x \<in> set vs" by auto
    then show "digits_value g' \<le> digits_value g"
    proof (elim disjE)
      assume "x \<in> set us" with lt m show ?thesis by (metis order_less_imp_le)
    next
      assume "x = t" with g m show ?thesis by simp
    next
      assume "x \<in> set vs" with le m show ?thesis by blast
    qed
  qed
  with res mem g show ?thesis by blast
qed

lemma select_major_minor_max:
  assumes "vinteger_pool tags = []" "integer_pool tags = []" "major_minor_pool tags \<noteq> []"
  shows "\<exists>r g1 g2. select_from_pools tags = Some r \<and> r \<in> py_strip ` set tags \<and>
           match_major_minor r = Some (g1, g2) \<and>
           (\<forall>t\<in>set tags. \<forall>h1 h2. match_major_minor (py_strip t) = Some (h1, h2) \<longrightarrow>
               digits_value h1 < digits_value g1 \<or>
               (digits_value h1 = digits_value g1 \<and> digits_value h2 \<le> digits_value g2))"
proof -
  from select_major_minor[OF assms] obtain us t vs g1 g2 where
    tags: "tags = us @ t # vs" and res: "select_from_pools tags = Some (py_strip t)"
    and g: "match_major_minor (py_strip t) = Some (g1, g2)"
    and lt: "\<forall>u\<in>set us. \<forall>h1 h2. match_major_minor (py_strip u) = Some (h1, h2) \<longrightarrow>
               digits_value h1 < digits_value g1 \<or> (digits_value h1 = digits_value g1 \<and> digits_value h2 < digits_value g2)"
    and le: "\<forall>v\<in>set vs. \<forall>h1 h2. match_major_minor (py_strip v) = Some (h1, h2) \<longrightarrow>
               digits_value h1 < digits_value g1 \<or> (digits_value h1 = digits_value g1 \<and> digits_value h2 \<le> digits_value g2)"
    by blast
  have mem: "py_strip t \<in> py_strip ` set tags" using tags by simp
  have "\<forall>x\<in>set tags. \<forall>h1 h2. match_major_minor (py_strip x) = Some (h1, h2) \<longrightarrow>
               digits_value h1 < digits_value g1 \<or> (digits_value h1 = digits_value g1 \<and> digits_value h2 \<le> digits_value g2)"
  proof (intro ballI allI impI)
    fix x h1 h2 assume x: "x \<in> set tags" and m: "match_major_minor (py_strip x) = Some (h1, h2)"
    from x tags have "x \<in> set us \<or> x = t \<or> x \<in> set vs" by auto
    then show "digits_value h1 < digits_value g1 \<or> (digits_value h1 = digits_value g1 \<and> digits_value h2 \<le> digits_value g2)"
    proof (elim disjE)
      assume "x \<in> set us"
      with lt m have "digits_value h1 < digits_value g1 \<or> (digits_value h1 = digits_value g1 \<and> digits_value h2 < digits_value g2)"
        by blast
      then show ?thesis by auto
    next
      assume "x = t" with g m show ?thesis by simp
    next
      assume "x \<in> set vs" with le m show ?thesis by blast
    qed
  qed
  with res mem g show ?thesis by blast
qed

lemma py_int_fits: "length g \<le> max_str_digits \<Longrightarrow> py_int g = Inr (digits_value g)"
  by (simp add: py_int_def)

subsection \<open>Stripping and the empty selection\<close>

lemma vinteger_fits_strip: "vinteger_fits (map py_strip tags) = vinteger_fits tags"
  by (simp add: vinteger_fits_def list_all_iff py_strip_idem)

lemma integer_fits_strip: "integer_fits (map py_strip tags) = integer_fits tags"
  by (simp add: integer_fits_def list_all_iff py_strip_idem)

lemma major_minor_fits_strip: "major_minor_fits (map py_strip tags) = major_minor_fits tags"
  by (simp add: major_minor_fits_def list_all_iff py_strip_idem)

lemma select_from_pools_strip: "select_from_pools (map py_strip tags) = select_from_pools tags"
  by (simp add: select_from_pools_def vinteger_pool_strip integer_pool_strip
      major_minor_pool_strip)

lemma get_latest_strip:
  "get_latest_version_tag (map py_strip tags) = get_latest_version_tag tags"
  by (simp add: get_latest_version_tag_eq vinteger_fits_strip integer_fits_strip
      major_minor_fits_strip select_from_pools_strip vinteger_pool_strip integer_pool_strip
      major_minor_pool_strip)

lemma get_latest_Inr_None_iff:
  "get_latest_version_tag tags = Inr None \<longleftrightarrow>
     (\<forall>t\<in>set tags. \<not> is_vinteger (py_strip t) \<and> \<not> is_integer (py_strip t) \<and>
                     \<not> is_major_minor (py_strip t))"
proof
  assume r: "get_latest_version_tag tags = Inr None"
  have v: "vinteger_pool tags = []"
  proof (rule ccontr)
    assume "vinteger_pool tags \<noteq> []"
    then show False using r by (auto simp: get_latest_version_tag_eq select_from_pools_def split: if_splits)
  qed
  have i: "integer_pool tags = []"
  proof (rule ccontr)
    assume "integer_pool tags \<noteq> []"
    then show False using r v by (auto simp: get_latest_version_tag_eq select_from_pools_def split: if_splits)
  qed
  have m: "major_minor_pool tags = []"
  proof (rule ccontr)
    assume "major_minor_pool tags \<noteq> []"
    then show False using r v i by (auto simp: get_latest_version_tag_eq select_from_pools_def split: if_splits)
  qed
  from v i m show "\<forall>t\<in>set tags. \<not> is_vinteger (py_strip t) \<and> \<not> is_integer (py_strip t) \<and>
                     \<not> is_major_minor (py_strip t)"
    by (simp add: vinteger_pool_empty_iff integer_pool_empty_iff major_minor_pool_empty_iff)
next
  assume a: "\<forall>t\<in>set tags. \<not> is_vinteger (py_strip t) \<and> \<not> is_integer (py_strip t) \<and>
                     \<not> is_major_minor (py_strip t)"
  then have "vinteger_pool tags = []" "integer_pool tags = []" "major_minor_pool tags = []"
    by (simp_all add: vinteger_pool_empty_iff integer_pool_empty_iff major_minor_pool_empty_iff)
  moreover have "vinteger_fits tags" "integer_fits tags" "major_minor_fits tags"
    using a no_vinteger_fits no_integer_fits no_major_minor_fits by blast+
  ultimately show "get_latest_version_tag tags = Inr None"
    by (simp add: get_latest_version_tag_eq select_from_pools_def)
qed

subsection \<open>What a returned tag is\<close>

lemma select_from_pools_Some:
  assumes res: "select_from_pools tags = Some r"
  shows "\<exists>t\<in>set tags. r = py_strip t \<and> (is_vinteger r \<or> is_integer r \<or> is_major_minor r)"
proof (cases "vinteger_pool tags \<noteq> []")
  case True
  from select_vinteger[OF True] res show ?thesis
    unfolding is_vinteger_def by fastforce
next
  case v: False
  show ?thesis
  proof (cases "integer_pool tags \<noteq> []")
    case True
    from select_integer[OF _ True] v res show ?thesis
      unfolding is_integer_def by fastforce
  next
    case i: False
    have "major_minor_pool tags \<noteq> []"
      using res v i by (auto simp: select_from_pools_def)
    from select_major_minor[OF _ _ this] v i res show ?thesis
      unfolding is_major_minor_def by fastforce
  qed
qed

lemma get_latest_Inr_select:
  "get_latest_version_tag tags = Inr r \<Longrightarrow> select_from_pools tags = r"
  by (auto simp: get_latest_version_tag_eq split: if_splits)

section \<open>Claims about the selector\<close>

text \<open>
  A tag that matches the prefixed-integer pattern need not be returned: when its digit
  group has more than 4300 digits, \<open>int\<close> raises \<open>ValueError\<close> in the first loop and the
  selector returns nothing at all.
\<close>

theorem selector_priority_counterexample:
  "is_vinteger (py_strip (CHR ''v'' # replicate 4301 (CHR ''1''))) \<and>
   get_latest_version_tag [CHR ''v'' # replicate 4301 (CHR ''1'')] = Inl ValueError"
proof -
  let ?ds = "replicate 4301 (CHR ''1'')"
  have d: "?ds \<noteq> []" "\<forall>c\<in>set ?ds. is_digit c" by (simp_all add: is_digit_def)
  have s: "py_strip (CHR ''v'' # ?ds) = CHR ''v'' # ?ds" using d by (rule py_strip_v_digits)
  have m: "match_vinteger (CHR ''v'' # ?ds) = Some ?ds" using d by (rule match_vinteger_digits)
  have v: "is_vinteger (py_strip (CHR ''v'' # ?ds))" by (simp add: s m is_vinteger_def)
  have "\<not> vinteger_fits [CHR ''v'' # ?ds]"
    by (simp add: vinteger_fits_def s m max_str_digits_def)
  moreover have "\<exists>t\<in>set [CHR ''v'' # ?ds]. is_vinteger (py_strip t)" using v by simp
  ultimately have "get_latest_version_tag [CHR ''v'' # ?ds] = Inl ValueError"
    by (simp add: get_latest_vinteger_case)
  with v show ?thesis by simp
qed

text \<open>
  Claim C1, as amended. The three conventions are tried in strict priority order. If any
  tag matches the prefixed-integer pattern after stripping, then the selector either
  raises \<open>ValueError\<close>, namely when some such tag has a digit group of more than 4300
  digits, or returns such a tag (which belongs to no other convention), whatever
  bare-integer or major.minor tags are present. If none does but a bare integer matches,
  the same holds with the bare-integer pattern, and if neither does but a major.minor tag
  matches, with the major.minor pattern (either digit group counting for the limit). The
  result is always one of the stripped input tags.
\<close>

theorem selector_priority:
  "((\<exists>t\<in>set tags. is_vinteger (py_strip t)) \<longrightarrow>
      (if \<forall>t\<in>set tags. \<forall>g. match_vinteger (py_strip t) = Some g \<longrightarrow> length g \<le> 4300
       then \<exists>r. get_latest_version_tag tags = Inr (Some r) \<and> r \<in> py_strip ` set tags \<and>
                is_vinteger r \<and> \<not> is_integer r \<and> \<not> is_major_minor r
       else get_latest_version_tag tags = Inl ValueError)) \<and>
   ((\<forall>t\<in>set tags. \<not> is_vinteger (py_strip t)) \<and> (\<exists>t\<in>set tags. is_integer (py_strip t)) \<longrightarrow>
      (if \<forall>t\<in>set tags. \<forall>g. match_integer (py_strip t) = Some g \<longrightarrow> length g \<le> 4300
       then \<exists>r. get_latest_version_tag tags = Inr (Some r) \<and> r \<in> py_strip ` set tags \<and>
                is_integer r \<and> \<not> is_vinteger r \<and> \<not> is_major_minor r
       else get_latest_version_tag tags = Inl ValueError)) \<and>
   ((\<forall>t\<in>set tags. \<not> is_vinteger (py_strip t) \<and> \<not> is_integer (py_strip t)) \<and>
    (\<exists>t\<in>set tags. is_major_minor (py_strip t)) \<longrightarrow>
      (if \<forall>t\<in>set tags. \<forall>g1 g2. match_major_minor (py_strip t) = Some (g1, g2) \<longrightarrow>
             length g1 \<le> 4300 \<and> length g2 \<le> 4300
       then \<exists>r. get_latest_version_tag tags = Inr (Some r) \<and> r \<in> py_strip ` set tags \<and>
                is_major_minor r \<and> \<not> is_vinteger r \<and> \<not> is_integer r
       else get_latest_version_tag tags = Inl ValueError)) \<and>
   get_latest_version_tag [''v1'', ''v2'', ''13'', ''14''] = Inr (Some ''v2'') \<and>
   get_latest_version_tag [''5'', ''13.4'', ''13.3''] = Inr (Some ''5'')"
proof (intro conjI impI)
  assume a: "\<exists>t\<in>set tags. is_vinteger (py_strip t)"
  then have ne: "vinteger_pool tags \<noteq> []" by (simp add: vinteger_pool_empty_iff)
  from select_vinteger[OF ne] obtain us t vs g where
    "tags = us @ t # vs" "select_from_pools tags = Some (py_strip t)"
    "match_vinteger (py_strip t) = Some g" by blast
  moreover from this have "is_vinteger (py_strip t)" "py_strip t \<in> py_strip ` set tags"
    by (simp_all add: is_vinteger_def)
  ultimately have sel: "\<exists>r. select_from_pools tags = Some r \<and> r \<in> py_strip ` set tags \<and>
           is_vinteger r \<and> \<not> is_integer r \<and> \<not> is_major_minor r"
    using vinteger_not_integer vinteger_not_major_minor by blast
  show "if \<forall>t\<in>set tags. \<forall>g. match_vinteger (py_strip t) = Some g \<longrightarrow> length g \<le> 4300
       then \<exists>r. get_latest_version_tag tags = Inr (Some r) \<and> r \<in> py_strip ` set tags \<and>
                is_vinteger r \<and> \<not> is_integer r \<and> \<not> is_major_minor r
       else get_latest_version_tag tags = Inl ValueError"
    using sel unfolding get_latest_vinteger_case[OF a] vinteger_fits_iff max_str_digits_def
    by auto
next
  assume a: "(\<forall>t\<in>set tags. \<not> is_vinteger (py_strip t)) \<and> (\<exists>t\<in>set tags. is_integer (py_strip t))"
  then have e: "vinteger_pool tags = []" "integer_pool tags \<noteq> []"
    by (simp_all add: vinteger_pool_empty_iff integer_pool_empty_iff)
  from select_integer[OF e] obtain us t vs g where
    "tags = us @ t # vs" "select_from_pools tags = Some (py_strip t)"
    "match_integer (py_strip t) = Some g" by blast
  moreover from this have "is_integer (py_strip t)" "py_strip t \<in> py_strip ` set tags"
    by (simp_all add: is_integer_def)
  ultimately have sel: "\<exists>r. select_from_pools tags = Some r \<and> r \<in> py_strip ` set tags \<and>
           is_integer r \<and> \<not> is_vinteger r \<and> \<not> is_major_minor r"
    using vinteger_not_integer integer_not_major_minor by blast
  from a have a1: "\<forall>t\<in>set tags. \<not> is_vinteger (py_strip t)"
    and a2: "\<exists>t\<in>set tags. is_integer (py_strip t)" by blast+
  show "if \<forall>t\<in>set tags. \<forall>g. match_integer (py_strip t) = Some g \<longrightarrow> length g \<le> 4300
       then \<exists>r. get_latest_version_tag tags = Inr (Some r) \<and> r \<in> py_strip ` set tags \<and>
                is_integer r \<and> \<not> is_vinteger r \<and> \<not> is_major_minor r
       else get_latest_version_tag tags = Inl ValueError"
    using sel unfolding get_latest_integer_case[OF a1 a2] integer_fits_iff max_str_digits_def
    by auto
next
  assume a: "(\<forall>t\<in>set tags. \<not> is_vinteger (py_strip t) \<and> \<not> is_integer (py_strip t)) \<and>
    (\<exists>t\<in>set tags. is_major_minor (py_strip t))"
  then have e: "vinteger_pool tags = []" "integer_pool tags = []" "major_minor_pool tags \<noteq> []"
    by (simp_all add: vinteger_pool_empty_iff integer_pool_empty_iff major_minor_pool_empty_iff)
  from select_major_minor[OF e] obtain us t vs g1 g2 where
    "tags = us @ t # vs" "select_from_pools tags = Some (py_strip t)"
    "match_major_minor (py_strip t) = Some (g1, g2)" by blast
  moreover from this have "is_major_minor (py_strip t)" "py_strip t \<in> py_strip ` set tags"
    by (simp_all add: is_major_minor_def)
  ultimately have sel: "\<exists>r. select_from_pools tags = Some r \<and> r \<in> py_strip ` set tags \<and>
           is_major_minor r \<and> \<not> is_vinteger r \<and> \<not> is_integer r"
    using vinteger_not_major_minor integer_not_major_minor by blast
  from a have a1: "\<forall>t\<in>set tags. \<not> is_vinteger (py_strip t) \<and> \<not> is_integer (py_strip t)" by blast
  show "if \<forall>t\<in>set tags. \<forall>g1 g2. match_major_minor (py_strip t) = Some (g1, g2) \<longrightarrow>
             length g1 \<le> 4300 \<and> length g2 \<le> 4300
       then \<exists>r. get_latest_version_tag tags = Inr (Some r) \<and> r \<in> py_strip ` set tags \<and>
                is_major_minor r \<and> \<not> is_vinteger r \<and> \<not> is_integer r
       else get_latest_version_tag tags = Inl ValueError"
    using sel unfolding get_latest_major_minor_case[OF a1] major_minor_fits_iff max_str_digits_def
    by auto
next
  show "get_latest_version_tag [''v1'', ''v2'', ''13'', ''14''] = Inr (Some ''v2'')" by code_simp
next
  show "get_latest_version_tag [''5'', ''13.4'', ''13.3''] = Inr (Some ''5'')" by code_simp
qed


theorem selector_priority_witness:
  "((\<exists>t\<in>set [''v1'', ''v2'', ''13'', ''14'']. is_vinteger (py_strip t)) \<and>
    list_all (\<lambda>t. case match_vinteger (py_strip t) of None \<Rightarrow> True | Some g \<Rightarrow> length g \<le> 4300)
      [''v1'', ''v2'', ''13'', ''14''] \<and>
    (\<exists>r. get_latest_version_tag [''v1'', ''v2'', ''13'', ''14''] = Inr (Some r) \<and>
         r \<in> py_strip ` set [''v1'', ''v2'', ''13'', ''14''] \<and>
         is_vinteger r \<and> \<not> is_integer r \<and> \<not> is_major_minor r)) \<and>
   ((list_all (\<lambda>t. \<not> is_vinteger (py_strip t)) [''5'', ''13.4'', ''13.3''] \<and>
     (\<exists>t\<in>set [''5'', ''13.4'', ''13.3'']. is_integer (py_strip t))) \<and>
    (\<exists>r. get_latest_version_tag [''5'', ''13.4'', ''13.3''] = Inr (Some r) \<and>
         r \<in> py_strip ` set [''5'', ''13.4'', ''13.3''] \<and>
         is_integer r \<and> \<not> is_vinteger r \<and> \<not> is_major_minor r)) \<and>
   ((list_all (\<lambda>t. \<not> is_vinteger (py_strip t) \<and> \<not> is_integer (py_strip t))
       [''v1.0'', ''2.5'', ''1.10''] \<and>
     (\<exists>t\<in>set [''v1.0'', ''2.5'', ''1.10'']. is_major_minor (py_strip t))) \<and>
    (\<exists>r. get_latest_version_tag [''v1.0'', ''2.5'', ''1.10''] = Inr (Some r) \<and>
         r \<in> py_strip ` set [''v1.0'', ''2.5'', ''1.10''] \<and>
         is_major_minor r \<and> \<not> is_vinteger r \<and> \<not> is_integer r))"
proof -
  have h1: "\<exists>t\<in>set [''v1'', ''v2'', ''13'', ''14'']. is_vinteger (py_strip t)" by code_simp
  have v1: "vinteger_fits [''v1'', ''v2'', ''13'', ''14'']" by code_simp
  note f1 = v1[unfolded vinteger_fits_iff max_str_digits_def]
  note l1 = v1[unfolded vinteger_fits_def max_str_digits_def]
  have h2: "(\<forall>t\<in>set [''5'', ''13.4'', ''13.3'']. \<not> is_vinteger (py_strip t)) \<and>
    (\<exists>t\<in>set [''5'', ''13.4'', ''13.3'']. is_integer (py_strip t))" by code_simp
  have v2: "integer_fits [''5'', ''13.4'', ''13.3'']" by code_simp
  note f2 = v2[unfolded integer_fits_iff max_str_digits_def]
  have h3: "(\<forall>t\<in>set [''v1.0'', ''2.5'', ''1.10'']. \<not> is_vinteger (py_strip t) \<and> \<not> is_integer (py_strip t)) \<and>
    (\<exists>t\<in>set [''v1.0'', ''2.5'', ''1.10'']. is_major_minor (py_strip t))" by code_simp
  have v3: "major_minor_fits [''v1.0'', ''2.5'', ''1.10'']" by code_simp
  note f3 = v3[unfolded major_minor_fits_iff max_str_digits_def]
  note c1 = selector_priority[of "[''v1'', ''v2'', ''13'', ''14'']", THEN conjunct1, THEN mp, OF h1,
      unfolded if_P[OF f1]]
  note c2 = selector_priority[of "[''5'', ''13.4'', ''13.3'']", THEN conjunct2, THEN conjunct1,
      THEN mp, OF h2, unfolded if_P[OF f2]]
  note c3 = selector_priority[of "[''v1.0'', ''2.5'', ''1.10'']", THEN conjunct2, THEN conjunct2,
      THEN conjunct1, THEN mp, OF h3, unfolded if_P[OF f3]]
  show ?thesis
    unfolding list_all_iff[of "\<lambda>t. \<not> is_vinteger (py_strip t)"]
      list_all_iff[of "\<lambda>t. \<not> is_vinteger (py_strip t) \<and> \<not> is_integer (py_strip t)"]
    by (intro conjI h1 h2 h3 c1 c2 c3 l1)
qed

text \<open>
  A list of bare integers need not yield its maximum: when one of them has more than
  4300 digits, \<open>int\<close> raises \<open>ValueError\<close> and nothing is selected.
\<close>

theorem selector_numeric_maximum_counterexample:
  "is_integer (py_strip ''7'') \<and>
   is_integer (py_strip (replicate 4301 (CHR ''9''))) \<and>
   \<not> is_vinteger (py_strip ''7'') \<and>
   \<not> is_vinteger (py_strip (replicate 4301 (CHR ''9''))) \<and>
   get_latest_version_tag [''7'', replicate 4301 (CHR ''9'')] = Inl ValueError"
proof -
  let ?ds = "replicate 4301 (CHR ''9'')"
  have d: "?ds \<noteq> []" "\<forall>c\<in>set ?ds. is_digit c" by (simp_all add: is_digit_def)
  have s: "py_strip ?ds = ?ds" using d by (rule py_strip_digits)
  have m: "match_integer ?ds = Some ?ds" using d by (rule match_integer_digits)
  have i9: "is_integer (py_strip ?ds)" by (simp add: s m is_integer_def)
  have i7: "is_integer (py_strip ''7'')" by code_simp
  have v7: "\<not> is_vinteger (py_strip ''7'')" by code_simp
  have v9: "\<not> is_vinteger (py_strip ?ds)" using i9 vinteger_not_integer by blast
  have nf: "\<not> integer_fits [''7'', ?ds]"
    by (simp add: integer_fits_def s m max_str_digits_def)
  have "get_latest_version_tag [''7'', ?ds] =
      (if integer_fits [''7'', ?ds] then Inr (select_from_pools [''7'', ?ds]) else Inl ValueError)"
    by (rule get_latest_integer_case) (use v7 v9 i7 in simp_all)
  with nf have "get_latest_version_tag [''7'', ?ds] = Inl ValueError" by simp
  with i7 i9 v7 v9 show ?thesis by blast
qed

text \<open>
  Claim C2, as amended. Within the winning convention the ranking is numeric, not
  lexicographic, provided no digit group of a tag of that convention has more than 4300
  digits (beyond which \<open>int\<close> raises \<open>ValueError\<close>). Under that proviso: if some tag matches
  the prefixed-integer pattern, the result is a matching tag whose captured integer is at
  least that of every matching tag in the list, whatever else the list holds; if the
  bare-integer convention is selected, the same holds among the bare integers; and when
  the major.minor convention is selected, the result's pair (major, minor) is at least
  that of every matching tag in the lexicographic order with major first.
\<close>

theorem selector_numeric_maximum:
  "((\<exists>t\<in>set tags. is_vinteger (py_strip t)) \<and>
    (\<forall>t\<in>set tags. \<forall>g. match_vinteger (py_strip t) = Some g \<longrightarrow> length g \<le> 4300) \<longrightarrow>
      (\<exists>r g n. get_latest_version_tag tags = Inr (Some r) \<and> r \<in> py_strip ` set tags \<and>
           match_vinteger r = Some g \<and> py_int g = Inr n \<and>
           (\<forall>t\<in>set tags. \<forall>g'. match_vinteger (py_strip t) = Some g' \<longrightarrow>
               (\<exists>n'. py_int g' = Inr n' \<and> n' \<le> n)))) \<and>
   ((\<forall>t\<in>set tags. \<not> is_vinteger (py_strip t)) \<and> (\<exists>t\<in>set tags. is_integer (py_strip t)) \<and>
    (\<forall>t\<in>set tags. \<forall>g. match_integer (py_strip t) = Some g \<longrightarrow> length g \<le> 4300) \<longrightarrow>
      (\<exists>r g n. get_latest_version_tag tags = Inr (Some r) \<and> r \<in> py_strip ` set tags \<and>
           match_integer r = Some g \<and> py_int g = Inr n \<and>
           (\<forall>t\<in>set tags. \<forall>g'. match_integer (py_strip t) = Some g' \<longrightarrow>
               (\<exists>n'. py_int g' = Inr n' \<and> n' \<le> n)))) \<and>
   ((\<forall>t\<in>set tags. \<not> is_vinteger (py_strip t) \<and> \<not> is_integer (py_strip t)) \<and>
    (\<exists>t\<in>set tags. is_major_minor (py_strip t)) \<and>
    (\<forall>t\<in>set tags. \<forall>g1 g2. match_major_minor (py_strip t) = Some (g1, g2) \<longrightarrow>
        length g1 \<le> 4300 \<and> length g2 \<le> 4300) \<longrightarrow>
      (\<exists>r g1 g2 major minor. get_latest_version_tag tags = Inr (Some r) \<and>
           r \<in> py_strip ` set tags \<and> match_major_minor r = Some (g1, g2) \<and>
           py_int g1 = Inr major \<and> py_int g2 = Inr minor \<and>
           (\<forall>t\<in>set tags. \<forall>h1 h2. match_major_minor (py_strip t) = Some (h1, h2) \<longrightarrow>
               (\<exists>major' minor'. py_int h1 = Inr major' \<and> py_int h2 = Inr minor' \<and>
                  (major' < major \<or> (major' = major \<and> minor' \<le> minor)))))) \<and>
   get_latest_version_tag [''v1'', ''v2'', ''v3'', ''v10'', ''v2.1.0''] = Inr (Some ''v10'') \<and>
   get_latest_version_tag [''v9'', ''v10'', ''v2'', ''v1''] = Inr (Some ''v10'') \<and>
   get_latest_version_tag [''1'', ''2'', ''13'', ''12.5''] = Inr (Some ''13'') \<and>
   get_latest_version_tag [''6'', ''10'', ''7''] = Inr (Some ''10'') \<and>
   get_latest_version_tag [''13.4'', ''13.3'', ''12.9'', ''12.1''] = Inr (Some ''13.4'') \<and>
   get_latest_version_tag [''9.9'', ''10.1'', ''2.5'', ''1.0''] = Inr (Some ''10.1'')"
proof (intro conjI impI)
  assume a: "(\<exists>t\<in>set tags. is_vinteger (py_strip t)) \<and>
    (\<forall>t\<in>set tags. \<forall>g. match_vinteger (py_strip t) = Some g \<longrightarrow> length g \<le> 4300)"
  then have ex: "\<exists>t\<in>set tags. is_vinteger (py_strip t)"
    and fit: "\<forall>t\<in>set tags. \<forall>g. match_vinteger (py_strip t) = Some g \<longrightarrow> length g \<le> max_str_digits"
    by (simp_all add: max_str_digits_def)
  from fit have f: "vinteger_fits tags" by (simp add: vinteger_fits_iff)
  from ex have ne: "vinteger_pool tags \<noteq> []" by (simp add: vinteger_pool_empty_iff)
  from select_vinteger_max[OF ne] obtain r g where
    sel: "select_from_pools tags = Some r" and mem: "r \<in> py_strip ` set tags"
    and g: "match_vinteger r = Some g"
    and mx: "\<forall>t\<in>set tags. \<forall>g'. match_vinteger (py_strip t) = Some g' \<longrightarrow>
               digits_value g' \<le> digits_value g" by blast
  have res: "get_latest_version_tag tags = Inr (Some r)"
    using get_latest_vinteger_case[OF ex] f sel by simp
  from mem g fit have "length g \<le> max_str_digits" by auto
  then have pg: "py_int g = Inr (digits_value g)" by (rule py_int_fits)
  have "\<forall>t\<in>set tags. \<forall>g'. match_vinteger (py_strip t) = Some g' \<longrightarrow>
               (\<exists>n'. py_int g' = Inr n' \<and> n' \<le> digits_value g)"
    using mx fit py_int_fits by blast
  with res mem g pg show "\<exists>r g n. get_latest_version_tag tags = Inr (Some r) \<and>
           r \<in> py_strip ` set tags \<and> match_vinteger r = Some g \<and> py_int g = Inr n \<and>
           (\<forall>t\<in>set tags. \<forall>g'. match_vinteger (py_strip t) = Some g' \<longrightarrow>
               (\<exists>n'. py_int g' = Inr n' \<and> n' \<le> n))" by blast
next
  assume a: "(\<forall>t\<in>set tags. \<not> is_vinteger (py_strip t)) \<and> (\<exists>t\<in>set tags. is_integer (py_strip t)) \<and>
    (\<forall>t\<in>set tags. \<forall>g. match_integer (py_strip t) = Some g \<longrightarrow> length g \<le> 4300)"
  then have nv: "\<forall>t\<in>set tags. \<not> is_vinteger (py_strip t)"
    and ex: "\<exists>t\<in>set tags. is_integer (py_strip t)"
    and fit: "\<forall>t\<in>set tags. \<forall>g. match_integer (py_strip t) = Some g \<longrightarrow> length g \<le> max_str_digits"
    by (simp_all add: max_str_digits_def)
  from fit have f: "integer_fits tags" by (simp add: integer_fits_iff)
  from nv ex have e: "vinteger_pool tags = []" "integer_pool tags \<noteq> []"
    by (simp_all add: vinteger_pool_empty_iff integer_pool_empty_iff)
  from select_integer_max[OF e] obtain r g where
    sel: "select_from_pools tags = Some r" and mem: "r \<in> py_strip ` set tags"
    and g: "match_integer r = Some g"
    and mx: "\<forall>t\<in>set tags. \<forall>g'. match_integer (py_strip t) = Some g' \<longrightarrow>
               digits_value g' \<le> digits_value g" by blast
  have res: "get_latest_version_tag tags = Inr (Some r)"
    using get_latest_integer_case[OF nv ex] f sel by simp
  from mem g fit have "length g \<le> max_str_digits" by auto
  then have pg: "py_int g = Inr (digits_value g)" by (rule py_int_fits)
  have "\<forall>t\<in>set tags. \<forall>g'. match_integer (py_strip t) = Some g' \<longrightarrow>
               (\<exists>n'. py_int g' = Inr n' \<and> n' \<le> digits_value g)"
    using mx fit py_int_fits by blast
  with res mem g pg show "\<exists>r g n. get_latest_version_tag tags = Inr (Some r) \<and>
           r \<in> py_strip ` set tags \<and> match_integer r = Some g \<and> py_int g = Inr n \<and>
           (\<forall>t\<in>set tags. \<forall>g'. match_integer (py_strip t) = Some g' \<longrightarrow>
               (\<exists>n'. py_int g' = Inr n' \<and> n' \<le> n))" by blast
next
  assume a: "(\<forall>t\<in>set tags. \<not> is_vinteger (py_strip t) \<and> \<not> is_integer (py_strip t)) \<and>
    (\<exists>t\<in>set tags. is_major_minor (py_strip t)) \<and>
    (\<forall>t\<in>set tags. \<forall>g1 g2. match_major_minor (py_strip t) = Some (g1, g2) \<longrightarrow>
        length g1 \<le> 4300 \<and> length g2 \<le> 4300)"
  then have nn: "\<forall>t\<in>set tags. \<not> is_vinteger (py_strip t) \<and> \<not> is_integer (py_strip t)"
    and ex: "\<exists>t\<in>set tags. is_major_minor (py_strip t)"
    and fit: "\<forall>t\<in>set tags. \<forall>g1 g2. match_major_minor (py_strip t) = Some (g1, g2) \<longrightarrow>
        length g1 \<le> max_str_digits \<and> length g2 \<le> max_str_digits"
    by (simp_all add: max_str_digits_def)
  from fit have f: "major_minor_fits tags" by (simp add: major_minor_fits_iff)
  from nn ex have e: "vinteger_pool tags = []" "integer_pool tags = []" "major_minor_pool tags \<noteq> []"
    by (simp_all add: vinteger_pool_empty_iff integer_pool_empty_iff major_minor_pool_empty_iff)
  from select_major_minor_max[OF e] obtain r g1 g2 where
    sel: "select_from_pools tags = Some r" and mem: "r \<in> py_strip ` set tags"
    and g: "match_major_minor r = Some (g1, g2)"
    and mx: "\<forall>t\<in>set tags. \<forall>h1 h2. match_major_minor (py_strip t) = Some (h1, h2) \<longrightarrow>
               digits_value h1 < digits_value g1 \<or>
               (digits_value h1 = digits_value g1 \<and> digits_value h2 \<le> digits_value g2)" by blast
  have res: "get_latest_version_tag tags = Inr (Some r)"
    using get_latest_major_minor_case[OF nn] f sel by simp
  from mem g fit have "length g1 \<le> max_str_digits" "length g2 \<le> max_str_digits" by auto
  then have pg: "py_int g1 = Inr (digits_value g1)" "py_int g2 = Inr (digits_value g2)"
    by (simp_all add: py_int_fits)
  have "\<forall>t\<in>set tags. \<forall>h1 h2. match_major_minor (py_strip t) = Some (h1, h2) \<longrightarrow>
               (\<exists>major' minor'. py_int h1 = Inr major' \<and> py_int h2 = Inr minor' \<and>
                  (major' < digits_value g1 \<or> (major' = digits_value g1 \<and> minor' \<le> digits_value g2)))"
  proof (intro ballI allI impI)
    fix t h1 h2 assume t: "t \<in> set tags" and m: "match_major_minor (py_strip t) = Some (h1, h2)"
    with fit have "py_int h1 = Inr (digits_value h1)" "py_int h2 = Inr (digits_value h2)"
      using py_int_fits by blast+
    moreover from mx t m have "digits_value h1 < digits_value g1 \<or>
               (digits_value h1 = digits_value g1 \<and> digits_value h2 \<le> digits_value g2)" by blast
    ultimately show "\<exists>major' minor'. py_int h1 = Inr major' \<and> py_int h2 = Inr minor' \<and>
                  (major' < digits_value g1 \<or> (major' = digits_value g1 \<and> minor' \<le> digits_value g2))"
      by blast
  qed
  with res mem g pg show "\<exists>r g1 g2 major minor. get_latest_version_tag tags = Inr (Some r) \<and>
           r \<in> py_strip ` set tags \<and> match_major_minor r = Some (g1, g2) \<and>
           py_int g1 = Inr major \<and> py_int g2 = Inr minor \<and>
           (\<forall>t\<in>set tags. \<forall>h1 h2. match_major_minor (py_strip t) = Some (h1, h2) \<longrightarrow>
               (\<exists>major' minor'. py_int h1 = Inr major' \<and> py_int h2 = Inr minor' \<and>
                  (major' < major \<or> (major' = major \<and> minor' \<le> minor))))" by blast
next
  show "get_latest_version_tag [''v1'', ''v2'', ''v3'', ''v10'', ''v2.1.0''] = Inr (Some ''v10'')" by code_simp
next
  show "get_latest_version_tag [''v9'', ''v10'', ''v2'', ''v1''] = Inr (Some ''v10'')" by code_simp
next
  show "get_latest_version_tag [''1'', ''2'', ''13'', ''12.5''] = Inr (Some ''13'')" by code_simp
next
  show "get_latest_version_tag [''6'', ''10'', ''7''] = Inr (Some ''10'')" by code_simp
next
  show "get_latest_version_tag [''13.4'', ''13.3'', ''12.9'', ''12.1''] = Inr (Some ''13.4'')" by code_simp
next
  show "get_latest_version_tag [''9.9'', ''10.1'', ''2.5'', ''1.0''] = Inr (Some ''10.1'')" by code_simp
qed


theorem selector_numeric_maximum_witness:
  "((\<exists>t\<in>set [''v9'', ''v10'', ''7'', ''v2'']. is_vinteger (py_strip t)) \<and>
    (\<exists>r g n. get_latest_version_tag [''v9'', ''v10'', ''7'', ''v2''] = Inr (Some r) \<and>
          r \<in> py_strip ` set [''v9'', ''v10'', ''7'', ''v2''] \<and>
          match_vinteger r = Some g \<and> py_int g = Inr n \<and>
          (\<forall>t\<in>set [''v9'', ''v10'', ''7'', ''v2'']. \<forall>g'.
              match_vinteger (py_strip t) = Some g' \<longrightarrow> (\<exists>n'. py_int g' = Inr n' \<and> n' \<le> n)))) \<and>
   ((list_all (\<lambda>t. \<not> is_vinteger (py_strip t)) [''6'', ''10'', ''7'', ''11.5''] \<and>
     (\<exists>t\<in>set [''6'', ''10'', ''7'', ''11.5'']. is_integer (py_strip t))) \<and>
    (\<exists>r g n. get_latest_version_tag [''6'', ''10'', ''7'', ''11.5''] = Inr (Some r) \<and>
          r \<in> py_strip ` set [''6'', ''10'', ''7'', ''11.5''] \<and>
          match_integer r = Some g \<and> py_int g = Inr n \<and>
          (\<forall>t\<in>set [''6'', ''10'', ''7'', ''11.5'']. \<forall>g'.
              match_integer (py_strip t) = Some g' \<longrightarrow> (\<exists>n'. py_int g' = Inr n' \<and> n' \<le> n)))) \<and>
   ((list_all (\<lambda>t. \<not> is_vinteger (py_strip t) \<and> \<not> is_integer (py_strip t)) [''9.9'', ''10.1'', ''x''] \<and>
     (\<exists>t\<in>set [''9.9'', ''10.1'', ''x'']. is_major_minor (py_strip t))) \<and>
    (\<exists>r g1 g2 major minor. get_latest_version_tag [''9.9'', ''10.1'', ''x''] = Inr (Some r) \<and>
          r \<in> py_strip ` set [''9.9'', ''10.1'', ''x''] \<and>
          match_major_minor r = Some (g1, g2) \<and>
          py_int g1 = Inr major \<and> py_int g2 = Inr minor \<and>
          (\<forall>t\<in>set [''9.9'', ''10.1'', ''x'']. \<forall>h1 h2.
              match_major_minor (py_strip t) = Some (h1, h2) \<longrightarrow>
              (\<exists>major' minor'. py_int h1 = Inr major' \<and> py_int h2 = Inr minor' \<and>
                 (major' < major \<or> (major' = major \<and> minor' \<le> minor)))))) \<and>
   get_latest_version_tag [''6'', ''10'', ''7'', ''11.5''] = Inr (Some ''10'')"
proof -
  let ?A = "[''v9'', ''v10'', ''7'', ''v2'']"
  let ?B = "[''6'', ''10'', ''7'', ''11.5'']"
  let ?C = "[''9.9'', ''10.1'', ''x'']"
  have e1: "\<exists>t\<in>set ?A. is_vinteger (py_strip t)" by code_simp
  have v1: "vinteger_fits ?A" by code_simp
  note f1 = v1[unfolded vinteger_fits_iff max_str_digits_def]
  have n2: "\<forall>t\<in>set ?B. \<not> is_vinteger (py_strip t)" by code_simp
  have e2: "\<exists>t\<in>set ?B. is_integer (py_strip t)" by code_simp
  have v2: "integer_fits ?B" by code_simp
  note f2 = v2[unfolded integer_fits_iff max_str_digits_def]
  have n3: "\<forall>t\<in>set ?C. \<not> is_vinteger (py_strip t) \<and> \<not> is_integer (py_strip t)" by code_simp
  have e3: "\<exists>t\<in>set ?C. is_major_minor (py_strip t)" by code_simp
  have v3: "major_minor_fits ?C" by code_simp
  note f3 = v3[unfolded major_minor_fits_iff max_str_digits_def]
  note c1 = selector_numeric_maximum[of ?A, THEN conjunct1, THEN mp, OF conjI[OF e1 f1]]
  note c2 = selector_numeric_maximum[of ?B, THEN conjunct2, THEN conjunct1, THEN mp,
      OF conjI[OF n2 conjI[OF e2 f2]]]
  note c3 = selector_numeric_maximum[of ?C, THEN conjunct2, THEN conjunct2, THEN conjunct1, THEN mp,
      OF conjI[OF n3 conjI[OF e3 f3]]]
  have x: "get_latest_version_tag ?B = Inr (Some ''10'')" by code_simp
  show ?thesis
    unfolding list_all_iff by (intro conjI e1 n2 e2 n3 e3 c1 c2 c3 x)
qed

text \<open>
  Claim C3. Matching is strict up to surrounding whitespace. Each tag is stripped before
  it is matched: \<open>py_strip\<close> removes exactly the leading and trailing whitespace
  characters (code points 9 to 13, 28 to 32, 133 and 160) and nothing else, a tag that
  matches only once stripped is selected in its stripped form, and stripping the list
  beforehand changes nothing. There is no case folding, no removal of inner whitespace and
  no partial match: each of V1, v1a, v1.0.0, v, 1.0.0, release-1, beta, abc and v1-beta, with
  or without surrounding whitespace, is rejected by all three patterns and yields no
  selection alone. The selector returns nothing (Python's \<open>None\<close>, no exception) exactly
  when no stripped tag matches any of the three patterns; in particular on the empty list.
\<close>

theorem selector_strict_matching:
  "(get_latest_version_tag tags = Inr None \<longleftrightarrow>
      (\<forall>t\<in>set tags. \<not> is_vinteger (py_strip t) \<and> \<not> is_integer (py_strip t) \<and>
                      \<not> is_major_minor (py_strip t))) \<and>
   get_latest_version_tag [] = Inr None \<and>
   get_latest_version_tag (map py_strip tags) = get_latest_version_tag tags \<and>
   ((\<forall>c\<in>set a. py_isspace c) \<and> (\<forall>c\<in>set b. py_isspace c) \<and>
    (core = [] \<or> (\<not> py_isspace (hd core) \<and> \<not> py_isspace (last core))) \<longrightarrow>
      py_strip (a @ core @ b) = core) \<and>
   (py_isspace c \<longleftrightarrow>
      (of_char c :: nat) \<in> {9, 10, 11, 12, 13, 28, 29, 30, 31, 32, 133, 160}) \<and>
   list_all (\<lambda>t. \<not> is_vinteger (py_strip t) \<and> \<not> is_integer (py_strip t) \<and>
                 \<not> is_major_minor (py_strip t) \<and> get_latest_version_tag [t] = Inr None)
     [''V1'', ''v1a'', ''v1.0.0'', ''v'', ''1.0.0'', ''release-1'', ''beta'', ''abc'', ''v1-beta'',
      '' V1 '', CHR 0x09 # ''v1a'' @ [CHR 0x0A], ''  v1.0.0'', ''1.0.0  '', ''v 1'', ''1 .0'', ''1. 0''] \<and>
   py_strip (CHR 0x09 # '' v7 '' @ [CHR 0x0D, CHR 0x0A]) = ''v7'' \<and>
   \<not> is_vinteger (CHR 0x09 # '' v7 '' @ [CHR 0x0D, CHR 0x0A]) \<and>
   get_latest_version_tag [CHR 0x09 # '' v7 '' @ [CHR 0x0D, CHR 0x0A]] = Inr (Some ''v7'') \<and>
   get_latest_version_tag ['' 12 ''] = Inr (Some ''12'') \<and>
   get_latest_version_tag ['' 1.5'' @ [CHR 0x0A]] = Inr (Some ''1.5'')"
proof (intro conjI impI)
  show "get_latest_version_tag tags = Inr None \<longleftrightarrow>
      (\<forall>t\<in>set tags. \<not> is_vinteger (py_strip t) \<and> \<not> is_integer (py_strip t) \<and>
                      \<not> is_major_minor (py_strip t))"
    by (rule get_latest_Inr_None_iff)
  show "get_latest_version_tag [] = Inr None" by code_simp
  show "get_latest_version_tag (map py_strip tags) = get_latest_version_tag tags"
    by (rule get_latest_strip)
  show "py_isspace c \<longleftrightarrow>
      (of_char c :: nat) \<in> {9, 10, 11, 12, 13, 28, 29, 30, 31, 32, 133, 160}"
    by (rule py_isspace_iff)
  show "list_all (\<lambda>t. \<not> is_vinteger (py_strip t) \<and> \<not> is_integer (py_strip t) \<and>
                 \<not> is_major_minor (py_strip t) \<and> get_latest_version_tag [t] = Inr None)
     [''V1'', ''v1a'', ''v1.0.0'', ''v'', ''1.0.0'', ''release-1'', ''beta'', ''abc'', ''v1-beta'',
      '' V1 '', CHR 0x09 # ''v1a'' @ [CHR 0x0A], ''  v1.0.0'', ''1.0.0  '', ''v 1'', ''1 .0'', ''1. 0'']"
    by code_simp
  show "py_strip (CHR 0x09 # '' v7 '' @ [CHR 0x0D, CHR 0x0A]) = ''v7''" by code_simp
  show "\<not> is_vinteger (CHR 0x09 # '' v7 '' @ [CHR 0x0D, CHR 0x0A])" by code_simp
  show "get_latest_version_tag [CHR 0x09 # '' v7 '' @ [CHR 0x0D, CHR 0x0A]] = Inr (Some ''v7'')"
    by code_simp
  show "get_latest_version_tag ['' 12 ''] = Inr (Some ''12'')" by code_simp
  show "get_latest_version_tag ['' 1.5'' @ [CHR 0x0A]] = Inr (Some ''1.5'')" by code_simp
next
  assume "(\<forall>c\<in>set a. py_isspace c) \<and> (\<forall>c\<in>set b. py_isspace c) \<and>
    (core = [] \<or> (\<not> py_isspace (hd core) \<and> \<not> py_isspace (last core)))"
  then show "py_strip (a @ core @ b) = core" using py_strip_sandwich by blast
qed

theorem selector_strict_matching_witness:
  "list_all (\<lambda>t. \<not> is_vinteger (py_strip t) \<and> \<not> is_integer (py_strip t) \<and>
                 \<not> is_major_minor (py_strip t))
     ['' v1.0.0 '', CHR 0x09 # ''release-1'', ''beta'' @ [CHR 0x0A], '' V1''] \<and>
   get_latest_version_tag
     ['' v1.0.0 '', CHR 0x09 # ''release-1'', ''beta'' @ [CHR 0x0A], '' V1''] = Inr None \<and>
   (list_all py_isspace [CHR 0x09, CHR 0x20] \<and> list_all py_isspace [CHR 0x0A] \<and>
    \<not> py_isspace (hd ''v 1'') \<and> \<not> py_isspace (last ''v 1'')) \<and>
   py_strip ([CHR 0x09, CHR 0x20] @ ''v 1'' @ [CHR 0x0A]) = ''v 1''"
proof -
  let ?T = "['' v1.0.0 '', CHR 0x09 # ''release-1'', ''beta'' @ [CHR 0x0A], '' V1'']"
  have h: "\<forall>t\<in>set ?T.
      \<not> is_vinteger (py_strip t) \<and> \<not> is_integer (py_strip t) \<and> \<not> is_major_minor (py_strip t)"
    by code_simp
  note c = selector_strict_matching[of ?T, THEN conjunct1, THEN iffD2, OF h]
  have s: "(\<forall>c\<in>set [CHR 0x09, CHR 0x20]. py_isspace c) \<and> (\<forall>c\<in>set [CHR 0x0A]. py_isspace c) \<and>
    (''v 1'' = [] \<or> (\<not> py_isspace (hd ''v 1'') \<and> \<not> py_isspace (last ''v 1'')))"
    by code_simp
  note d = selector_strict_matching[of _ "[CHR 0x09, CHR 0x20]" "[CHR 0x0A]" "''v 1''",
      THEN conjunct2, THEN conjunct2, THEN conjunct2, THEN conjunct1, THEN mp, OF s]
  have s': "list_all py_isspace [CHR 0x09, CHR 0x20] \<and> list_all py_isspace [CHR 0x0A] \<and>
    \<not> py_isspace (hd ''v 1'') \<and> \<not> py_isspace (last ''v 1'')" by code_simp
  show ?thesis unfolding list_all_iff[of "\<lambda>t. \<not> is_vinteger (py_strip t) \<and> \<not> is_integer (py_strip t) \<and>
                 \<not> is_major_minor (py_strip t)"]
    by (intro conjI h c d s')
qed




section \<open>Claims about pagination\<close>

text \<open>
  Claim C5. If the tag fetcher receives an error-shaped page (a dict with a \<open>message\<close> key)
  as page n, having received pages 1 to n - 1 as lists of at least 100 records that carry
  a name (the only way it gets to ask for page n), it returns without raising exactly the
  names accumulated from pages 1 to n - 1, in order, and has requested pages 1 to n and
  no other. With n = 1 the result is the empty list.
\<close>

theorem fetch_tags_error_page:
  assumes "\<forall>k<length ps. tr (TagsUrl org repo 100 (Suc k)) = Inr (JArr (ps ! k)) \<and>
              100 \<le> length (ps ! k)"
    and "names_of (concat ps) = Inr names"
    and "tr (TagsUrl org repo 100 (Suc (length ps))) = Inr (JObj kvs)"
    and "''message'' \<in> fst ` set kvs"
  shows "fetch_tags tr org repo =
         Some (Inr names, map (TagsUrl org repo 100) [1..<length ps + 2])"
proof -
  have pp: "per_page = 100" by (simp add: per_page_def)
  have full: "\<forall>k<length ps. tr (TagsUrl org repo per_page (1 + k)) = Inr (JArr (ps ! k)) \<and>
              per_page \<le> length (ps ! k)"
    using assms(1) by (simp add: pp)
  have err: "tr (TagsUrl org repo per_page (1 + length ps)) = Inr (JObj kvs)"
    using assms(3) by (simp add: pp)
  have "fetch_tags tr org repo =
      fetch_tags_loop tr org repo (1 + length ps) ([] @ names)
        ([] @ map (TagsUrl org repo per_page) [1..<1 + length ps])"
    unfolding fetch_tags_def using full assms(2) by (rule fetch_tags_loop_full_pages)
  also have "\<dots> = Some (Inr ([] @ names),
      ([] @ map (TagsUrl org repo per_page) [1..<1 + length ps]) @
        [TagsUrl org repo per_page (1 + length ps)])"
    using err assms(4) by (rule fetch_tags_loop_error_page)
  finally show ?thesis by (simp add: pp)
qed

theorem fetch_tags_error_page_witness:
  "fetch_tags
     (\<lambda>u. case u of
            TagsUrl og r pp p \<Rightarrow>
              if p = 1 then Inr (JArr (replicate 100 (JObj [(''name'', JStr ''v1'')])))
              else Inr (JObj [(''message'', JStr ''API rate limit exceeded'')])
          | ReposUrl og pp p \<Rightarrow> Inl CalledProcessError)
     ''actions'' ''checkout'' =
   Some (Inr (replicate 100 (JStr ''v1'')),
         [TagsUrl ''actions'' ''checkout'' 100 1, TagsUrl ''actions'' ''checkout'' 100 2])"
proof -
  let ?tr = "\<lambda>u. case u of
            TagsUrl og r pp p \<Rightarrow>
              if p = 1 then Inr (JArr (replicate 100 (JObj [(''name'', JStr ''v1'')])))
              else Inr (JObj [(''message'', JStr ''API rate limit exceeded'')])
          | ReposUrl og pp p \<Rightarrow> Inl CalledProcessError"
  let ?ps = "[replicate 100 (JObj [(''name'', JStr ''v1'')])]"
  have h1: "\<forall>k<length ?ps. ?tr (TagsUrl ''actions'' ''checkout'' 100 (Suc k)) = Inr (JArr (?ps ! k)) \<and>
              100 \<le> length (?ps ! k)" by simp
  have h2: "names_of (concat ?ps) = Inr (replicate 100 (JStr ''v1''))"
    by (simp add: names_of_replicate)
  have h3: "?tr (TagsUrl ''actions'' ''checkout'' 100 (Suc (length ?ps))) =
      Inr (JObj [(''message'', JStr ''API rate limit exceeded'')])" by simp
  have h4: "''message'' \<in> fst ` set [(''message'', JStr ''API rate limit exceeded'')]" by simp
  have u: "[1..<length ?ps + 2] = [1, 2]" by (simp add: upt_rec)
  show ?thesis
    using fetch_tags_error_page[of ?ps ?tr "''actions''" "''checkout''", OF h1 h2 h3 h4]
    unfolding u by simp
qed

text \<open>
  Claim C6. Both page-fetch loops request pages of size 100 starting at page 1. As long
  as a page is a list of at least 100 records they go on to the next page; at the first
  page that is a list of fewer than 100 records (possibly none) they stop, having
  requested exactly the pages up to that one, and return the records of all the pages
  received, in page order and with those of the short last page (for the tag fetcher:
  the names of these records).
\<close>

theorem page_loops_concatenate:
  "((\<forall>k<length ps. tr (ReposUrl org 100 (Suc k)) = Inr (JArr (ps ! k)) \<and> 100 \<le> length (ps ! k)) \<and>
    tr (ReposUrl org 100 (Suc (length ps))) = Inr (JArr final) \<and> length final < 100 \<longrightarrow>
      fetch_repos tr org =
        Some (Inr (concat ps @ final), map (ReposUrl org 100) [1..<length ps + 2])) \<and>
   ((\<forall>k<length ps. tr (TagsUrl org repo 100 (Suc k)) = Inr (JArr (ps ! k)) \<and> 100 \<le> length (ps ! k)) \<and>
    tr (TagsUrl org repo 100 (Suc (length ps))) = Inr (JArr final) \<and> length final < 100 \<and>
    names_of (concat ps @ final) = Inr names \<longrightarrow>
      fetch_tags tr org repo =
        Some (Inr names, map (TagsUrl org repo 100) [1..<length ps + 2]))"
proof (intro conjI impI)
  have pp: "per_page = 100" by (simp add: per_page_def)
  assume a: "(\<forall>k<length ps. tr (ReposUrl org 100 (Suc k)) = Inr (JArr (ps ! k)) \<and> 100 \<le> length (ps ! k)) \<and>
    tr (ReposUrl org 100 (Suc (length ps))) = Inr (JArr final) \<and> length final < 100"
  then have full: "\<forall>k<length ps. tr (ReposUrl org per_page (1 + k)) = Inr (JArr (ps ! k)) \<and>
              per_page \<le> length (ps ! k)"
    and fin: "tr (ReposUrl org per_page (1 + length ps)) = Inr (JArr final)" "length final < per_page"
    by (simp_all add: pp)
  have "fetch_repos tr org =
      fetch_repos_loop tr org (1 + length ps) ([] @ concat ps)
        ([] @ map (ReposUrl org per_page) [1..<1 + length ps])"
    unfolding fetch_repos_def using full by (rule fetch_repos_loop_full_pages)
  also have "\<dots> = Some (Inr (([] @ concat ps) @ final),
      ([] @ map (ReposUrl org per_page) [1..<1 + length ps]) @
        [ReposUrl org per_page (1 + length ps)])"
    using fin by (rule fetch_repos_loop_short_page)
  finally show "fetch_repos tr org =
        Some (Inr (concat ps @ final), map (ReposUrl org 100) [1..<length ps + 2])"
    by (simp add: pp)
next
  have pp: "per_page = 100" by (simp add: per_page_def)
  assume a: "(\<forall>k<length ps. tr (TagsUrl org repo 100 (Suc k)) = Inr (JArr (ps ! k)) \<and> 100 \<le> length (ps ! k)) \<and>
    tr (TagsUrl org repo 100 (Suc (length ps))) = Inr (JArr final) \<and> length final < 100 \<and>
    names_of (concat ps @ final) = Inr names"
  then have full: "\<forall>k<length ps. tr (TagsUrl org repo per_page (1 + k)) = Inr (JArr (ps ! k)) \<and>
              per_page \<le> length (ps ! k)"
    and fin: "tr (TagsUrl org repo per_page (1 + length ps)) = Inr (JArr final)" "length final < per_page"
    by (simp_all add: pp)
  from a obtain n1 n2 where n1: "names_of (concat ps) = Inr n1" and n2: "names_of final = Inr n2"
    and names: "names = n1 @ n2"
    using names_of_appendD[of "concat ps" final names] by blast
  have "fetch_tags tr org repo =
      fetch_tags_loop tr org repo (1 + length ps) ([] @ n1)
        ([] @ map (TagsUrl org repo per_page) [1..<1 + length ps])"
    unfolding fetch_tags_def using full n1 by (rule fetch_tags_loop_full_pages)
  also have "\<dots> = Some (Inr (([] @ n1) @ n2),
      ([] @ map (TagsUrl org repo per_page) [1..<1 + length ps]) @
        [TagsUrl org repo per_page (1 + length ps)])"
    using fin n2 by (rule fetch_tags_loop_short_page)
  finally show "fetch_tags tr org repo =
        Some (Inr names, map (TagsUrl org repo 100) [1..<length ps + 2])"
    by (simp add: pp names)
qed


theorem page_loops_concatenate_witness:
  "fetch_repos
     (\<lambda>u. if url_page u = 1 then Inr (JArr (replicate 100 (JObj [(''name'', JStr ''a'')])))
          else Inr (JArr [JObj [(''name'', JStr ''b'')]]))
     ''actions'' =
   Some (Inr (replicate 100 (JObj [(''name'', JStr ''a'')]) @ [JObj [(''name'', JStr ''b'')]]),
         [ReposUrl ''actions'' 100 1, ReposUrl ''actions'' 100 2]) \<and>
   fetch_tags
     (\<lambda>u. if url_page u = 1 then Inr (JArr (replicate 100 (JObj [(''name'', JStr ''a'')])))
          else Inr (JArr [JObj [(''name'', JStr ''b'')]]))
     ''actions'' ''cache'' =
   Some (Inr (replicate 100 (JStr ''a'') @ [JStr ''b'']),
         [TagsUrl ''actions'' ''cache'' 100 1, TagsUrl ''actions'' ''cache'' 100 2])"
proof -
  let ?tr = "\<lambda>u. if url_page u = 1 then Inr (JArr (replicate 100 (JObj [(''name'', JStr ''a'')])))
          else Inr (JArr [JObj [(''name'', JStr ''b'')]])"
  let ?ps = "[replicate 100 (JObj [(''name'', JStr ''a'')])]"
  let ?final = "[JObj [(''name'', JStr ''b'')]]"
  have h1: "(\<forall>k<length ?ps. ?tr (ReposUrl ''actions'' 100 (Suc k)) = Inr (JArr (?ps ! k)) \<and>
                100 \<le> length (?ps ! k)) \<and>
    ?tr (ReposUrl ''actions'' 100 (Suc (length ?ps))) = Inr (JArr ?final) \<and> length ?final < 100"
    by simp
  have n: "names_of (concat ?ps @ ?final) = Inr (replicate 100 (JStr ''a'') @ [JStr ''b''])"
    by (simp add: names_of_append names_of_replicate)
  have h2: "(\<forall>k<length ?ps. ?tr (TagsUrl ''actions'' ''cache'' 100 (Suc k)) = Inr (JArr (?ps ! k)) \<and>
                100 \<le> length (?ps ! k)) \<and>
    ?tr (TagsUrl ''actions'' ''cache'' 100 (Suc (length ?ps))) = Inr (JArr ?final) \<and>
    length ?final < 100 \<and>
    names_of (concat ?ps @ ?final) = Inr (replicate 100 (JStr ''a'') @ [JStr ''b''])"
    using n by simp
  have u: "[1..<length ?ps + 2] = [1, 2]" by (simp add: upt_rec)
  note c1 = page_loops_concatenate[of ?ps ?tr "''actions''", THEN conjunct1, THEN mp, OF h1]
  note c2 = page_loops_concatenate[of ?ps ?tr "''actions''" ?final "''cache''",
      THEN conjunct2, THEN mp, OF h2]
  show ?thesis using c1 c2 unfolding u by simp
qed

section \<open>Claims about the writer and the cache\<close>

text \<open>
  Claim C7. The manifest written to the versions file holds the accepted records, each
  once, as lines \<open>owner/repo@tag\<close> in ascending order of the lower-cased path, that is,
  ignoring case: \<open>py_lower\<close> maps the upper-case letters (A to Z and the accented capitals
  of Latin-1) to their lower-case forms and leaves every other character alone, so that
  actions/alpha comes before actions/Zeta, which by code points it would not. Records whose
  paths agree up to case keep their order. The lines are joined by newlines and followed
  by a newline; with at least one record every line, the last included, ends in a newline.
  Whatever the file held before is replaced. The unversioned set is written as one
  identifier per line, each ended by a newline, in strictly ascending order of code
  points, and replaces the previous content of its file.
\<close>

theorem writer_format:
  "(\<exists>vs. mset vs = mset versions \<and>
         sorted (map (\<lambda>x. py_lower (fst x)) vs) \<and>
         (\<forall>k. filter (\<lambda>x. py_lower (fst x) = k) vs = filter (\<lambda>x. py_lower (fst x) = k) versions) \<and>
         versions_file (snd (write_outputs sub versions new_unversioned fs)) =
           Some (py_join newline (map (\<lambda>(full_repo, tag). full_repo @ ''@'' @ tag) vs) @ newline) \<and>
         (versions \<noteq> [] \<longrightarrow>
            versions_file (snd (write_outputs sub versions new_unversioned fs)) =
              Some (concat (map (\<lambda>(full_repo, tag). full_repo @ ''@'' @ tag @ newline) vs)))) \<and>
   (finite new_unversioned \<and> fst (write_outputs sub versions new_unversioned fs) = Completed \<longrightarrow>
      (\<exists>ids. sorted ids \<and> distinct ids \<and> set ids = new_unversioned \<and>
            unversioned_file (snd (write_outputs sub versions new_unversioned fs)) =
              Some (concat (map (\<lambda>i. i @ newline) ids)))) \<and>
   (finite repos \<longrightarrow>
      (\<exists>ids. sorted ids \<and> distinct ids \<and> set ids = repos \<and>
            unversioned_file (save_unversioned repos fs) =
              Some (concat (map (\<lambda>i. i @ newline) ids)))) \<and>
   py_lower ''ABCDEFGHIJKLMNOPQRSTUVWXYZ'' = ''abcdefghijklmnopqrstuvwxyz'' \<and>
   py_lower ''actions/setup-node_1.x@'' = ''actions/setup-node_1.x@'' \<and>
   py_lower_char c =
     (if (of_char c :: nat) \<in> {65..90} \<union> {192..214} \<union> {216..222}
      then char_of ((of_char c :: nat) + 32) else c) \<and>
   sort_versions [(''actions/C'', ''v1''), (''actions/b'', ''v2''), (''Actions/a'', ''v3'')] =
     [(''Actions/a'', ''v3''), (''actions/b'', ''v2''), (''actions/C'', ''v1'')] \<and>
   sort_versions [(''actions/setup-python'', ''v5''), (''actions/setup-node'', ''v4'')] =
     [(''actions/setup-node'', ''v4''), (''actions/setup-python'', ''v5'')] \<and>
   build_versions_content
     (sort_versions [(''actions/Zeta'', ''v1''), (''actions/alpha'', ''v2'')]) =
     ''actions/alpha@v2'' @ newline @ ''actions/Zeta@v1'' @ newline \<and>
   unversioned_content {''zebra'', ''Alpha'', ''mango''} =
     ''Alpha'' @ newline @ ''mango'' @ newline @ ''zebra'' @ newline \<and>
   newline = [CHR 0x0A]"
proof (intro conjI impI)
  show "py_lower ''ABCDEFGHIJKLMNOPQRSTUVWXYZ'' = ''abcdefghijklmnopqrstuvwxyz''" by code_simp
  show "py_lower ''actions/setup-node_1.x@'' = ''actions/setup-node_1.x@''" by code_simp
  show "py_lower_char c =
     (if (of_char c :: nat) \<in> {65..90} \<union> {192..214} \<union> {216..222}
      then char_of ((of_char c :: nat) + 32) else c)"
    unfolding py_lower_char_def Let_def by (simp; arith)
  show "sort_versions [(''actions/C'', ''v1''), (''actions/b'', ''v2''), (''Actions/a'', ''v3'')] =
     [(''Actions/a'', ''v3''), (''actions/b'', ''v2''), (''actions/C'', ''v1'')]" by code_simp
  show "sort_versions [(''actions/setup-python'', ''v5''), (''actions/setup-node'', ''v4'')] =
     [(''actions/setup-node'', ''v4''), (''actions/setup-python'', ''v5'')]" by code_simp
  show "build_versions_content
     (sort_versions [(''actions/Zeta'', ''v1''), (''actions/alpha'', ''v2'')]) =
     ''actions/alpha@v2'' @ newline @ ''actions/Zeta@v1'' @ newline" by code_simp
  show "unversioned_content {''zebra'', ''Alpha'', ''mango''} =
     ''Alpha'' @ newline @ ''mango'' @ newline @ ''zebra'' @ newline" by code_simp
  show "newline = [CHR 0x0A]" by (simp add: newline_def)
next
  let ?vs = "sort_versions versions"
  have 1: "mset ?vs = mset versions" by (simp add: sort_versions_def)
  have 2: "sorted (map (\<lambda>x. py_lower (fst x)) ?vs)" unfolding sort_versions_def by (rule sorted_sort_key)
  have 3: "\<forall>k. filter (\<lambda>x. py_lower (fst x) = k) ?vs = filter (\<lambda>x. py_lower (fst x) = k) versions"
    unfolding sort_versions_def by (simp add: sort_key_stable)
  have 4: "versions_file (snd (write_outputs sub versions new_unversioned fs)) =
           Some (py_join newline (map (\<lambda>(full_repo, tag). full_repo @ ''@'' @ tag) ?vs) @ newline)"
    by (simp add: write_outputs_versions_file build_versions_content_def)
  have 5: "versions \<noteq> [] \<longrightarrow>
            versions_file (snd (write_outputs sub versions new_unversioned fs)) =
              Some (concat (map (\<lambda>(full_repo, tag). full_repo @ ''@'' @ tag @ newline) ?vs))"
  proof
    assume "versions \<noteq> []"
    then have "?vs \<noteq> []" using 1 by (metis mset_zero_iff)
    then show "versions_file (snd (write_outputs sub versions new_unversioned fs)) =
              Some (concat (map (\<lambda>(full_repo, tag). full_repo @ ''@'' @ tag @ newline) ?vs))"
      by (simp add: write_outputs_versions_file build_versions_content_lines)
  qed
  show "\<exists>vs. mset vs = mset versions \<and>
         sorted (map (\<lambda>x. py_lower (fst x)) vs) \<and>
         (\<forall>k. filter (\<lambda>x. py_lower (fst x) = k) vs = filter (\<lambda>x. py_lower (fst x) = k) versions) \<and>
         versions_file (snd (write_outputs sub versions new_unversioned fs)) =
           Some (py_join newline (map (\<lambda>(full_repo, tag). full_repo @ ''@'' @ tag) vs) @ newline) \<and>
         (versions \<noteq> [] \<longrightarrow>
            versions_file (snd (write_outputs sub versions new_unversioned fs)) =
              Some (concat (map (\<lambda>(full_repo, tag). full_repo @ ''@'' @ tag @ newline) vs)))"
    using 1 2 3 4 5 by blast
next
  assume a: "finite new_unversioned \<and> fst (write_outputs sub versions new_unversioned fs) = Completed"
  then have "unversioned_file (snd (write_outputs sub versions new_unversioned fs)) =
      Some (unversioned_content new_unversioned)" by (simp add: write_outputs_unversioned_file)
  then show "\<exists>ids. sorted ids \<and> distinct ids \<and> set ids = new_unversioned \<and>
            unversioned_file (snd (write_outputs sub versions new_unversioned fs)) =
              Some (concat (map (\<lambda>i. i @ newline) ids))"
    using unversioned_content_lines[of new_unversioned] a by auto
next
  assume "finite repos"
  then show "\<exists>ids. sorted ids \<and> distinct ids \<and> set ids = repos \<and>
            unversioned_file (save_unversioned repos fs) =
              Some (concat (map (\<lambda>i. i @ newline) ids))"
    using unversioned_content_lines[of repos] by (auto simp: save_unversioned_def)
qed

theorem writer_format_witness:
  "(finite {''zebra'', ''Alpha'', ''mango''} \<and>
    fst (write_outputs (\<lambda>r t. Inr t)
          [(''actions/Zeta'', ''v5''), (''actions/alpha'', ''v4'')]
          {''zebra'', ''Alpha'', ''mango''}
          \<lparr>versions_file = Some ''old'', unversioned_file = Some ''stale'', readme_file = None\<rparr>)
      = Completed) \<and>
   (\<exists>ids. sorted ids \<and> distinct ids \<and> set ids = {''zebra'', ''Alpha'', ''mango''} \<and>
      unversioned_file (snd (write_outputs (\<lambda>r t. Inr t)
          [(''actions/Zeta'', ''v5''), (''actions/alpha'', ''v4'')]
          {''zebra'', ''Alpha'', ''mango''}
          \<lparr>versions_file = Some ''old'', unversioned_file = Some ''stale'', readme_file = None\<rparr>))
        = Some (concat (map (\<lambda>i. i @ newline) ids))) \<and>
   versions_file (snd (write_outputs (\<lambda>r t. Inr t)
          [(''actions/Zeta'', ''v5''), (''actions/alpha'', ''v4'')]
          {''zebra'', ''Alpha'', ''mango''}
          \<lparr>versions_file = Some ''old'', unversioned_file = Some ''stale'', readme_file = None\<rparr>))
     = Some (''actions/alpha@v4'' @ newline @ ''actions/Zeta@v5'' @ newline) \<and>
   unversioned_file (snd (write_outputs (\<lambda>r t. Inr t)
          [(''actions/Zeta'', ''v5''), (''actions/alpha'', ''v4'')]
          {''zebra'', ''Alpha'', ''mango''}
          \<lparr>versions_file = Some ''old'', unversioned_file = Some ''stale'', readme_file = None\<rparr>))
     = Some (''Alpha'' @ newline @ ''mango'' @ newline @ ''zebra'' @ newline)"
proof -
  let ?V = "[(''actions/Zeta'', ''v5''), (''actions/alpha'', ''v4'')]"
  let ?NU = "{''zebra'', ''Alpha'', ''mango''}"
  let ?FS = "\<lparr>versions_file = Some ''old'', unversioned_file = Some ''stale'', readme_file = None\<rparr>"
  let ?S = "\<lambda>r t. Inr t :: error + string"
  have h: "finite ?NU \<and> fst (write_outputs ?S ?V ?NU ?FS) = Completed"
    by (simp add: write_outputs_def update_readme_def save_unversioned_def)
  note c = writer_format[of ?V ?S ?NU ?FS, THEN conjunct2, THEN conjunct1, THEN mp, OF h]
  have v: "versions_file (snd (write_outputs ?S ?V ?NU ?FS))
     = Some (''actions/alpha@v4'' @ newline @ ''actions/Zeta@v5'' @ newline)"
    by code_simp
  have u: "unversioned_file (snd (write_outputs ?S ?V ?NU ?FS))
     = Some (''Alpha'' @ newline @ ''mango'' @ newline @ ''zebra'' @ newline)"
    by code_simp
  show ?thesis by (intro conjI h c v u)
qed

text \<open>
  Claim C8. A repository whose identifier is in the cache loaded from the unversioned file
  (the bare name for a repository of the organization, the full \<open>owner/repo\<close> path for an
  extra repository) is not queried for tags: the loop body makes no request for it and
  adds the identifier to the new set. Over a whole run, every tag request made is for a
  repository that is not cached: a string name of the organization's list that is not in
  the cache (or a name that is no string, which is never found in a cache of strings), or
  an extra repository whose full path is not in the cache. When the run completes, the
  unversioned file holds exactly the identifiers of the repositories processed in this
  run that were skipped through the cache or checked and found without a version tag;
  what else the old file held is gone. A run that ends in an exception leaves the
  unversioned file as it was.
\<close>

theorem unversioned_cache_rebuilt:
  assumes "run tr sub extra_repos fs (out, fs', log)"
  shows "(\<exists>res0 log0 l.
       fetch_repos tr ORG_NAME = Some (res0, log0) \<and> log = log0 @ l \<and>
       (\<forall>u\<in>set log0. \<exists>q. u = ReposUrl ORG_NAME per_page q) \<and>
       (case res0 of
          Inl e \<Rightarrow> out = Raised e \<and> fs' = fs \<and> l = []
        | Inr repos \<Rightarrow>
            (\<forall>u\<in>set l. \<exists>org rn q. u = TagsUrl org rn per_page q \<and>
               ((org = ORG_NAME \<and>
                 (\<exists>r\<in>set repos.
                    (subscript_name r = Inr (JStr rn) \<and> rn \<notin> load_unversioned fs) \<or>
                    (\<exists>x. subscript_name r = Inr x \<and> scalar_text x = Some (Inr rn)))) \<or>
                (\<exists>full\<in>set extra_repos.
                    full \<notin> load_unversioned fs \<and> split_owner_repo full = Inr (org, rn)))) \<and>
            (out = Completed \<longrightarrow>
               unversioned_file fs' =
                 Some (unversioned_content
                   ({n. (\<exists>r\<in>set repos. subscript_name r = Inr (JStr n)) \<and>
                        (n \<in> load_unversioned fs \<or> found_unversioned tr ORG_NAME n)} \<union>
                    {full. full \<in> set extra_repos \<and>
                       (full \<in> load_unversioned fs \<or>
                        (\<exists>org rn. split_owner_repo full = Inr (org, rn) \<and>
                           found_unversioned tr org rn))}))) \<and>
            (out \<noteq> Completed \<longrightarrow> unversioned_file fs' = unversioned_file fs))) \<and>
     (\<forall>n acc. n \<in> load_unversioned fs \<longrightarrow>
        process_org_repo tr (load_unversioned fs) n acc =
          Some (Inr (fst acc, insert n (snd acc)), [])) \<and>
     (\<forall>full acc. full \<in> load_unversioned fs \<and> (\<exists>org rn. split_owner_repo full = Inr (org, rn)) \<longrightarrow>
        process_extra_repo tr (load_unversioned fs) full acc =
          Some (Inr (fst acc, insert full (snd acc)), []))"
proof (intro conjI)
  show "\<forall>n acc. n \<in> load_unversioned fs \<longrightarrow>
        process_org_repo tr (load_unversioned fs) n acc =
          Some (Inr (fst acc, insert n (snd acc)), [])"
    by (simp add: process_org_repo_cached)
  show "\<forall>full acc. full \<in> load_unversioned fs \<and> (\<exists>org rn. split_owner_repo full = Inr (org, rn)) \<longrightarrow>
        process_extra_repo tr (load_unversioned fs) full acc =
          Some (Inr (fst acc, insert full (snd acc)), [])"
    using process_extra_repo_cached by blast
next
  let ?U = "load_unversioned fs"
  let ?A = "\<lambda>repos l. \<forall>u\<in>set l. \<exists>org rn q. u = TagsUrl org rn per_page q \<and>
               ((org = ORG_NAME \<and>
                 (\<exists>r\<in>set repos.
                    (subscript_name r = Inr (JStr rn) \<and> rn \<notin> load_unversioned fs) \<or>
                    (\<exists>x. subscript_name r = Inr x \<and> scalar_text x = Some (Inr rn)))) \<or>
                (\<exists>full\<in>set extra_repos.
                    full \<notin> load_unversioned fs \<and> split_owner_repo full = Inr (org, rn)))"
  let ?S = "\<lambda>repos. {n. (\<exists>r\<in>set repos. subscript_name r = Inr (JStr n)) \<and>
                        (n \<in> load_unversioned fs \<or> found_unversioned tr ORG_NAME n)} \<union>
                    {full. full \<in> set extra_repos \<and>
                       (full \<in> load_unversioned fs \<or>
                        (\<exists>org rn. split_owner_repo full = Inr (org, rn) \<and>
                           found_unversioned tr org rn))}"
  let ?C = "\<lambda>res0 l. case res0 of
          Inl e \<Rightarrow> out = Raised e \<and> fs' = fs \<and> l = []
        | Inr repos \<Rightarrow>
            ?A repos l \<and>
            (out = Completed \<longrightarrow> unversioned_file fs' = Some (unversioned_content (?S repos))) \<and>
            (out \<noteq> Completed \<longrightarrow> unversioned_file fs' = unversioned_file fs)"
  have goal: "\<exists>res0 log0 l.
       fetch_repos tr ORG_NAME = Some (res0, log0) \<and> log = log0 @ l \<and>
       (\<forall>u\<in>set log0. \<exists>q. u = ReposUrl ORG_NAME per_page q) \<and> ?C res0 l"
    using assms
  proof (cases rule: run.cases)
    case (fetch_repos_raises e)
    have "fetch_repos tr ORG_NAME = Some (Inl e, log) \<and> log = log @ [] \<and>
       (\<forall>u\<in>set log. \<exists>q. u = ReposUrl ORG_NAME per_page q) \<and> ?C (Inl e) []"
      using fetch_repos_raises fetch_repos_log[of tr ORG_NAME "Inl e" log] by simp
    then show ?thesis by blast
  next
    case (org_loop_raises repos log0 e)
    from org_loop_requests[OF org_loop_raises(4), of extra_repos] obtain l where
      l: "log = log0 @ l" and a: "?A repos l" by blast
    have "fetch_repos tr ORG_NAME = Some (Inr repos, log0) \<and> log = log0 @ l \<and>
       (\<forall>u\<in>set log0. \<exists>q. u = ReposUrl ORG_NAME per_page q) \<and> ?C (Inr repos) l"
      using org_loop_raises(1,2,3) l a fetch_repos_log[of tr ORG_NAME "Inr repos" log0] by simp
    then show ?thesis by blast
  next
    case (extra_loop_raises repos log0 acc1 log1 e)
    have e: "(if extra_repos \<noteq> [] then process_extra_repos tr ?U extra_repos acc1 log1
             else Some (Inr acc1, log1)) = Some (Inl e, log)"
      using extra_loop_raises(5,6) by simp
    from both_loops[OF extra_loop_raises(4) e] obtain l where
      l: "log = log0 @ l" and a: "?A repos l" by blast
    have "fetch_repos tr ORG_NAME = Some (Inr repos, log0) \<and> log = log0 @ l \<and>
       (\<forall>u\<in>set log0. \<exists>q. u = ReposUrl ORG_NAME per_page q) \<and> ?C (Inr repos) l"
      using extra_loop_raises(1,2,3) l a fetch_repos_log[of tr ORG_NAME "Inr repos" log0] by simp
    then show ?thesis by blast
  next
    case (writes repos log0 acc1 log1 versions new_unversioned)
    from both_loops[OF writes(2) writes(3)] obtain l where
      l: "log = log0 @ l" and a: "?A repos l" and s: "new_unversioned = ?S repos" by auto
    have w1: "out = Completed \<longrightarrow> unversioned_file fs' = Some (unversioned_content (?S repos))"
      using write_outputs_unversioned_file[of sub versions new_unversioned fs] writes(4) s by simp
    have w2: "out \<noteq> Completed \<longrightarrow> unversioned_file fs' = unversioned_file fs"
    proof
      assume "out \<noteq> Completed"
      then obtain e where "out = Raised e" by (cases out) auto
      then show "unversioned_file fs' = unversioned_file fs"
        using write_outputs_raised_unversioned_file[of sub versions new_unversioned fs e] writes(4)
        by simp
    qed
    have "fetch_repos tr ORG_NAME = Some (Inr repos, log0) \<and> log = log0 @ l \<and>
       (\<forall>u\<in>set log0. \<exists>q. u = ReposUrl ORG_NAME per_page q) \<and> ?C (Inr repos) l"
      using writes(1) l a w1 w2 fetch_repos_log[of tr ORG_NAME "Inr repos" log0] by simp
    then show ?thesis by blast
  qed
  then show "\<exists>res0 log0 l.
       fetch_repos tr ORG_NAME = Some (res0, log0) \<and> log = log0 @ l \<and>
       (\<forall>u\<in>set log0. \<exists>q. u = ReposUrl ORG_NAME per_page q) \<and>
       (case res0 of
          Inl e \<Rightarrow> out = Raised e \<and> fs' = fs \<and> l = []
        | Inr repos \<Rightarrow>
            (\<forall>u\<in>set l. \<exists>org rn q. u = TagsUrl org rn per_page q \<and>
               ((org = ORG_NAME \<and>
                 (\<exists>r\<in>set repos.
                    (subscript_name r = Inr (JStr rn) \<and> rn \<notin> load_unversioned fs) \<or>
                    (\<exists>x. subscript_name r = Inr x \<and> scalar_text x = Some (Inr rn)))) \<or>
                (\<exists>full\<in>set extra_repos.
                    full \<notin> load_unversioned fs \<and> split_owner_repo full = Inr (org, rn)))) \<and>
            (out = Completed \<longrightarrow>
               unversioned_file fs' =
                 Some (unversioned_content
                   ({n. (\<exists>r\<in>set repos. subscript_name r = Inr (JStr n)) \<and>
                        (n \<in> load_unversioned fs \<or> found_unversioned tr ORG_NAME n)} \<union>
                    {full. full \<in> set extra_repos \<and>
                       (full \<in> load_unversioned fs \<or>
                        (\<exists>org rn. split_owner_repo full = Inr (org, rn) \<and>
                           found_unversioned tr org rn))}))) \<and>
            (out \<noteq> Completed \<longrightarrow> unversioned_file fs' = unversioned_file fs))" .
qed

theorem unversioned_cache_rebuilt_witness:
  "run (\<lambda>u. case u of
          ReposUrl og pp p \<Rightarrow>
            Inr (JArr [JObj [(''name'', JStr ''checkout'')],
                       JObj [(''name'', JStr ''old-repo'')],
                       JObj [(''name'', JStr ''labeler'')]])
        | TagsUrl og r pp p \<Rightarrow>
            if r = ''checkout'' then Inr (JArr [JObj [(''name'', JStr ''v4'')]])
            else Inr (JArr []))
     (\<lambda>r t. Inr t) EXTRA_REPOS
     \<lparr>versions_file = None,
        unversioned_file =
          Some (''old-repo'' @ newline @ ''tailscale/github-action'' @ newline @ ''gone'' @ newline),
        readme_file = None\<rparr>
     (Completed,
      \<lparr>versions_file = Some (''actions/checkout@v4'' @ newline),
        unversioned_file =
          Some (''DeLaGuardo/setup-clojure'' @ newline @
                ''DeterminateSystems/determinate-nix-action'' @ newline @
                ''DeterminateSystems/flake-checker-action'' @ newline @
                ''DeterminateSystems/flakehub-cache-action'' @ newline @
                ''DeterminateSystems/flakehub-push'' @ newline @
                ''DeterminateSystems/magic-nix-cache-action'' @ newline @
                ''DeterminateSystems/nix-installer-action'' @ newline @
                ''docker/build-push-action'' @ newline @
                ''labeler'' @ newline @
                ''old-repo'' @ newline @
                ''tailscale/github-action'' @ newline),
        readme_file = None\<rparr>,
      [ReposUrl ''actions'' 100 1,
       TagsUrl ''actions'' ''checkout'' 100 1,
       TagsUrl ''actions'' ''labeler'' 100 1,
       TagsUrl ''DeLaGuardo'' ''setup-clojure'' 100 1,
       TagsUrl ''DeterminateSystems'' ''determinate-nix-action'' 100 1,
       TagsUrl ''DeterminateSystems'' ''flake-checker-action'' 100 1,
       TagsUrl ''DeterminateSystems'' ''flakehub-cache-action'' 100 1,
       TagsUrl ''DeterminateSystems'' ''flakehub-push'' 100 1,
       TagsUrl ''DeterminateSystems'' ''magic-nix-cache-action'' 100 1,
       TagsUrl ''DeterminateSystems'' ''nix-installer-action'' 100 1,
       TagsUrl ''docker'' ''build-push-action'' 100 1]) \<and>
   (\<exists>res0 log0 l.
       fetch_repos (\<lambda>u. case u of
          ReposUrl og pp p \<Rightarrow>
            Inr (JArr [JObj [(''name'', JStr ''checkout'')],
                       JObj [(''name'', JStr ''old-repo'')],
                       JObj [(''name'', JStr ''labeler'')]])
        | TagsUrl og r pp p \<Rightarrow>
            if r = ''checkout'' then Inr (JArr [JObj [(''name'', JStr ''v4'')]])
            else Inr (JArr [])) ORG_NAME = Some (res0, log0) \<and>
       [ReposUrl ''actions'' 100 1,
       TagsUrl ''actions'' ''checkout'' 100 1,
       TagsUrl ''actions'' ''labeler'' 100 1,
       TagsUrl ''DeLaGuardo'' ''setup-clojure'' 100 1,
       TagsUrl ''DeterminateSystems'' ''determinate-nix-action'' 100 1,
       TagsUrl ''DeterminateSystems'' ''flake-checker-action'' 100 1,
       TagsUrl ''DeterminateSystems'' ''flakehub-cache-action'' 100 1,
       TagsUrl ''DeterminateSystems'' ''flakehub-push'' 100 1,
       TagsUrl ''DeterminateSystems'' ''magic-nix-cache-action'' 100 1,
       TagsUrl ''DeterminateSystems'' ''nix-installer-action'' 100 1,
       TagsUrl ''docker'' ''build-push-action'' 100 1] = log0 @ l \<and>
       (\<forall>u\<in>set log0. \<exists>q. u = ReposUrl ORG_NAME per_page q) \<and>
       (case res0 of
          Inl e \<Rightarrow> Completed = Raised e \<and> \<lparr>versions_file = Some (''actions/checkout@v4'' @ newline),
        unversioned_file =
          Some (''DeLaGuardo/setup-clojure'' @ newline @
                ''DeterminateSystems/determinate-nix-action'' @ newline @
                ''DeterminateSystems/flake-checker-action'' @ newline @
                ''DeterminateSystems/flakehub-cache-action'' @ newline @
                ''DeterminateSystems/flakehub-push'' @ newline @
                ''DeterminateSystems/magic-nix-cache-action'' @ newline @
                ''DeterminateSystems/nix-installer-action'' @ newline @
                ''docker/build-push-action'' @ newline @
                ''labeler'' @ newline @
                ''old-repo'' @ newline @
                ''tailscale/github-action'' @ newline),
        readme_file = None\<rparr> = \<lparr>versions_file = None,
        unversioned_file =
          Some (''old-repo'' @ newline @ ''tailscale/github-action'' @ newline @ ''gone'' @ newline),
        readme_file = None\<rparr> \<and> l = []
        | Inr repos \<Rightarrow>
            (\<forall>u\<in>set l. \<exists>org rn q. u = TagsUrl org rn per_page q \<and>
               ((org = ORG_NAME \<and>
                 (\<exists>r\<in>set repos.
                    (subscript_name r = Inr (JStr rn) \<and> rn \<notin> load_unversioned \<lparr>versions_file = None,
        unversioned_file =
          Some (''old-repo'' @ newline @ ''tailscale/github-action'' @ newline @ ''gone'' @ newline),
        readme_file = None\<rparr>) \<or>
                    (\<exists>x. subscript_name r = Inr x \<and> scalar_text x = Some (Inr rn)))) \<or>
                (\<exists>full\<in>set EXTRA_REPOS.
                    full \<notin> load_unversioned \<lparr>versions_file = None,
        unversioned_file =
          Some (''old-repo'' @ newline @ ''tailscale/github-action'' @ newline @ ''gone'' @ newline),
        readme_file = None\<rparr> \<and> split_owner_repo full = Inr (org, rn)))) \<and>
            (Completed = Completed \<longrightarrow>
               unversioned_file \<lparr>versions_file = Some (''actions/checkout@v4'' @ newline),
        unversioned_file =
          Some (''DeLaGuardo/setup-clojure'' @ newline @
                ''DeterminateSystems/determinate-nix-action'' @ newline @
                ''DeterminateSystems/flake-checker-action'' @ newline @
                ''DeterminateSystems/flakehub-cache-action'' @ newline @
                ''DeterminateSystems/flakehub-push'' @ newline @
                ''DeterminateSystems/magic-nix-cache-action'' @ newline @
                ''DeterminateSystems/nix-installer-action'' @ newline @
                ''docker/build-push-action'' @ newline @
                ''labeler'' @ newline @
                ''old-repo'' @ newline @
                ''tailscale/github-action'' @ newline),
        readme_file = None\<rparr> =
                 Some (unversioned_content
                   ({n. (\<exists>r\<in>set repos. subscript_name r = Inr (JStr n)) \<and>
                        (n \<in> load_unversioned \<lparr>versions_file = None,
        unversioned_file =
          Some (''old-repo'' @ newline @ ''tailscale/github-action'' @ newline @ ''gone'' @ newline),
        readme_file = None\<rparr> \<or> found_unversioned (\<lambda>u. case u of
          ReposUrl og pp p \<Rightarrow>
            Inr (JArr [JObj [(''name'', JStr ''checkout'')],
                       JObj [(''name'', JStr ''old-repo'')],
                       JObj [(''name'', JStr ''labeler'')]])
        | TagsUrl og r pp p \<Rightarrow>
            if r = ''checkout'' then Inr (JArr [JObj [(''name'', JStr ''v4'')]])
            else Inr (JArr [])) ORG_NAME n)} \<union>
                    {full. full \<in> set EXTRA_REPOS \<and>
                       (full \<in> load_unversioned \<lparr>versions_file = None,
        unversioned_file =
          Some (''old-repo'' @ newline @ ''tailscale/github-action'' @ newline @ ''gone'' @ newline),
        readme_file = None\<rparr> \<or>
                        (\<exists>org rn. split_owner_repo full = Inr (org, rn) \<and>
                           found_unversioned (\<lambda>u. case u of
          ReposUrl og pp p \<Rightarrow>
            Inr (JArr [JObj [(''name'', JStr ''checkout'')],
                       JObj [(''name'', JStr ''old-repo'')],
                       JObj [(''name'', JStr ''labeler'')]])
        | TagsUrl og r pp p \<Rightarrow>
            if r = ''checkout'' then Inr (JArr [JObj [(''name'', JStr ''v4'')]])
            else Inr (JArr [])) org rn))}))) \<and>
            (Completed \<noteq> Completed \<longrightarrow> unversioned_file \<lparr>versions_file = Some (''actions/checkout@v4'' @ newline),
        unversioned_file =
          Some (''DeLaGuardo/setup-clojure'' @ newline @
                ''DeterminateSystems/determinate-nix-action'' @ newline @
                ''DeterminateSystems/flake-checker-action'' @ newline @
                ''DeterminateSystems/flakehub-cache-action'' @ newline @
                ''DeterminateSystems/flakehub-push'' @ newline @
                ''DeterminateSystems/magic-nix-cache-action'' @ newline @
                ''DeterminateSystems/nix-installer-action'' @ newline @
                ''docker/build-push-action'' @ newline @
                ''labeler'' @ newline @
                ''old-repo'' @ newline @
                ''tailscale/github-action'' @ newline),
        readme_file = None\<rparr> = unversioned_file \<lparr>versions_file = None,
        unversioned_file =
          Some (''old-repo'' @ newline @ ''tailscale/github-action'' @ newline @ ''gone'' @ newline),
        readme_file = None\<rparr>))) \<and>
   load_unversioned \<lparr>versions_file = None,
        unversioned_file =
          Some (''old-repo'' @ newline @ ''tailscale/github-action'' @ newline @ ''gone'' @ newline),
        readme_file = None\<rparr> =
     {''old-repo'', ''tailscale/github-action'', ''gone''}"
proof -
  let ?tr = "(\<lambda>u. case u of
          ReposUrl og pp p \<Rightarrow>
            Inr (JArr [JObj [(''name'', JStr ''checkout'')],
                       JObj [(''name'', JStr ''old-repo'')],
                       JObj [(''name'', JStr ''labeler'')]])
        | TagsUrl og r pp p \<Rightarrow>
            if r = ''checkout'' then Inr (JArr [JObj [(''name'', JStr ''v4'')]])
            else Inr (JArr []))"
  let ?sub = "(\<lambda>r t. Inr t) :: re_sub"
  let ?fs = "\<lparr>versions_file = None,
        unversioned_file =
          Some (''old-repo'' @ newline @ ''tailscale/github-action'' @ newline @ ''gone'' @ newline),
        readme_file = None\<rparr>"
  let ?fs' = "\<lparr>versions_file = Some (''actions/checkout@v4'' @ newline),
        unversioned_file =
          Some (''DeLaGuardo/setup-clojure'' @ newline @
                ''DeterminateSystems/determinate-nix-action'' @ newline @
                ''DeterminateSystems/flake-checker-action'' @ newline @
                ''DeterminateSystems/flakehub-cache-action'' @ newline @
                ''DeterminateSystems/flakehub-push'' @ newline @
                ''DeterminateSystems/magic-nix-cache-action'' @ newline @
                ''DeterminateSystems/nix-installer-action'' @ newline @
                ''docker/build-push-action'' @ newline @
                ''labeler'' @ newline @
                ''old-repo'' @ newline @
                ''tailscale/github-action'' @ newline),
        readme_file = None\<rparr>"
  let ?log = "[ReposUrl ''actions'' 100 1,
       TagsUrl ''actions'' ''checkout'' 100 1,
       TagsUrl ''actions'' ''labeler'' 100 1,
       TagsUrl ''DeLaGuardo'' ''setup-clojure'' 100 1,
       TagsUrl ''DeterminateSystems'' ''determinate-nix-action'' 100 1,
       TagsUrl ''DeterminateSystems'' ''flake-checker-action'' 100 1,
       TagsUrl ''DeterminateSystems'' ''flakehub-cache-action'' 100 1,
       TagsUrl ''DeterminateSystems'' ''flakehub-push'' 100 1,
       TagsUrl ''DeterminateSystems'' ''magic-nix-cache-action'' 100 1,
       TagsUrl ''DeterminateSystems'' ''nix-installer-action'' 100 1,
       TagsUrl ''docker'' ''build-push-action'' 100 1]"
  let ?U = "load_unversioned ?fs"
  let ?V = "{''old-repo'', ''tailscale/github-action'', ''gone''}"
  let ?r1 = "JObj [(''name'', JStr ''checkout'')]"
  let ?r2 = "JObj [(''name'', JStr ''old-repo'')]"
  let ?r3 = "JObj [(''name'', JStr ''labeler'')]"
  let ?lrepos = "[ReposUrl ''actions'' 100 1]"
  let ?a1 = "([(''actions/checkout'', ''v4'')], {}) :: collected"
  let ?a2 = "([(''actions/checkout'', ''v4'')], {''old-repo''}) :: collected"
  let ?a3 = "([(''actions/checkout'', ''v4'')], {''labeler'', ''old-repo''}) :: collected"
  let ?l1 = "[TagsUrl ''actions'' ''checkout'' 100 1]"
  let ?l3 = "[TagsUrl ''actions'' ''labeler'' 100 1]"
  let ?nu = "{''DeLaGuardo/setup-clojure'',
      ''DeterminateSystems/determinate-nix-action'',
      ''DeterminateSystems/flake-checker-action'',
      ''DeterminateSystems/flakehub-cache-action'',
      ''DeterminateSystems/flakehub-push'',
      ''DeterminateSystems/magic-nix-cache-action'',
      ''DeterminateSystems/nix-installer-action'',
      ''docker/build-push-action'',
      ''labeler'',
      ''old-repo'',
      ''tailscale/github-action''}"
  let ?nu = "{''tailscale/github-action'',
      ''docker/build-push-action'',
      ''DeterminateSystems/nix-installer-action'',
      ''DeterminateSystems/magic-nix-cache-action'',
      ''DeterminateSystems/flakehub-push'',
      ''DeterminateSystems/flakehub-cache-action'',
      ''DeterminateSystems/flake-checker-action'',
      ''DeterminateSystems/determinate-nix-action'',
      ''DeLaGuardo/setup-clojure'',
      ''labeler'',
      ''old-repo''}"
  have U: "load_unversioned ?fs = {''old-repo'', ''tailscale/github-action'', ''gone''}"
    by code_simp
  have f: "fetch_repos ?tr ORG_NAME = Some (Inr [?r1, ?r2, ?r3], ?lrepos)"
    unfolding fetch_repos_def ORG_NAME_def
    using fetch_repos_loop_short_page[of ?tr "''actions''" 1 "[?r1, ?r2, ?r3]" "[]" "[]"]
    by (simp add: per_page_def)
  have s1: "subscript_name ?r1 = Inr (JStr ''checkout'')" by simp
  have s2: "subscript_name ?r2 = Inr (JStr ''old-repo'')" by simp
  have s3: "subscript_name ?r3 = Inr (JStr ''labeler'')" by simp
  have sl0: "select_latest [] = Inr None" by code_simp
  have sl1: "select_latest [JStr ''v4''] = Inr (Some ''v4'')" by code_simp
  have cr: "check_repo ?tr org r = Some (Inr None, [TagsUrl org r 100 1])"
    if "r \<noteq> ''checkout''" for r org
    using check_repo_short_page[of ?tr org r "[]" "[]"] that by (simp add: per_page_def sl0)
  have cc: "check_repo ?tr ''actions'' ''checkout'' =
      Some (Inr (Some ''v4''), [TagsUrl ''actions'' ''checkout'' 100 1])"
    using check_repo_short_page[of ?tr "''actions''" "''checkout''"
        "[JObj [(''name'', JStr ''v4'')]]" "[JStr ''v4'']"]
    by (simp add: per_page_def sl1)
  have p1: "process_org_repo ?tr ?U ''checkout'' ([], {}) = Some (Inr ?a1, ?l1)"
    unfolding process_org_repo_def U ORG_NAME_def using cc by (simp add: record_result_def)
  have p2: "process_org_repo ?tr ?U ''old-repo'' ?a1 = Some (Inr ?a2, [])"
    unfolding process_org_repo_def U by simp
  have p3: "process_org_repo ?tr ?U ''labeler'' ?a2 = Some (Inr ?a3, ?l3)"
    unfolding process_org_repo_def U ORG_NAME_def using cr[of "''labeler''" "''actions''"]
    by (simp add: record_result_def)
  have o: "org_loop ?tr ?U [?r1, ?r2, ?r3] ([], {}) ?lrepos
             (Inr ?a3, ((?lrepos @ ?l1) @ []) @ ?l3)"
    by (rule org_loop.body_continues[OF s1 p1], rule org_loop.body_continues[OF s2 p2],
        rule org_loop.body_continues[OF s3 p3], rule org_loop.finished)
  have sp0: "split_owner_repo ''DeLaGuardo/setup-clojure'' = Inr (''DeLaGuardo'', ''setup-clojure'')" by code_simp
  have pe0: "process_extra_repo ?tr ?V ''DeLaGuardo/setup-clojure'' acc =
      Some (Inr (fst acc, insert ''DeLaGuardo/setup-clojure'' (snd acc)), [TagsUrl ''DeLaGuardo'' ''setup-clojure'' 100 1])" for acc
    unfolding process_extra_repo_def sp0 using cr[of "''setup-clojure''" "''DeLaGuardo''"]
    by (simp add: record_result_def)
  have sp1: "split_owner_repo ''DeterminateSystems/determinate-nix-action'' = Inr (''DeterminateSystems'', ''determinate-nix-action'')" by code_simp
  have pe1: "process_extra_repo ?tr ?V ''DeterminateSystems/determinate-nix-action'' acc =
      Some (Inr (fst acc, insert ''DeterminateSystems/determinate-nix-action'' (snd acc)), [TagsUrl ''DeterminateSystems'' ''determinate-nix-action'' 100 1])" for acc
    unfolding process_extra_repo_def sp1 using cr[of "''determinate-nix-action''" "''DeterminateSystems''"]
    by (simp add: record_result_def)
  have sp2: "split_owner_repo ''DeterminateSystems/flake-checker-action'' = Inr (''DeterminateSystems'', ''flake-checker-action'')" by code_simp
  have pe2: "process_extra_repo ?tr ?V ''DeterminateSystems/flake-checker-action'' acc =
      Some (Inr (fst acc, insert ''DeterminateSystems/flake-checker-action'' (snd acc)), [TagsUrl ''DeterminateSystems'' ''flake-checker-action'' 100 1])" for acc
    unfolding process_extra_repo_def sp2 using cr[of "''flake-checker-action''" "''DeterminateSystems''"]
    by (simp add: record_result_def)
  have sp3: "split_owner_repo ''DeterminateSystems/flakehub-cache-action'' = Inr (''DeterminateSystems'', ''flakehub-cache-action'')" by code_simp
  have pe3: "process_extra_repo ?tr ?V ''DeterminateSystems/flakehub-cache-action'' acc =
      Some (Inr (fst acc, insert ''DeterminateSystems/flakehub-cache-action'' (snd acc)), [TagsUrl ''DeterminateSystems'' ''flakehub-cache-action'' 100 1])" for acc
    unfolding process_extra_repo_def sp3 using cr[of "''flakehub-cache-action''" "''DeterminateSystems''"]
    by (simp add: record_result_def)
  have sp4: "split_owner_repo ''DeterminateSystems/flakehub-push'' = Inr (''DeterminateSystems'', ''flakehub-push'')" by code_simp
  have pe4: "process_extra_repo ?tr ?V ''DeterminateSystems/flakehub-push'' acc =
      Some (Inr (fst acc, insert ''DeterminateSystems/flakehub-push'' (snd acc)), [TagsUrl ''DeterminateSystems'' ''flakehub-push'' 100 1])" for acc
    unfolding process_extra_repo_def sp4 using cr[of "''flakehub-push''" "''DeterminateSystems''"]
    by (simp add: record_result_def)
  have sp5: "split_owner_repo ''DeterminateSystems/magic-nix-cache-action'' = Inr (''DeterminateSystems'', ''magic-nix-cache-action'')" by code_simp
  have pe5: "process_extra_repo ?tr ?V ''DeterminateSystems/magic-nix-cache-action'' acc =
      Some (Inr (fst acc, insert ''DeterminateSystems/magic-nix-cache-action'' (snd acc)), [TagsUrl ''DeterminateSystems'' ''magic-nix-cache-action'' 100 1])" for acc
    unfolding process_extra_repo_def sp5 using cr[of "''magic-nix-cache-action''" "''DeterminateSystems''"]
    by (simp add: record_result_def)
  have sp6: "split_owner_repo ''DeterminateSystems/nix-installer-action'' = Inr (''DeterminateSystems'', ''nix-installer-action'')" by code_simp
  have pe6: "process_extra_repo ?tr ?V ''DeterminateSystems/nix-installer-action'' acc =
      Some (Inr (fst acc, insert ''DeterminateSystems/nix-installer-action'' (snd acc)), [TagsUrl ''DeterminateSystems'' ''nix-installer-action'' 100 1])" for acc
    unfolding process_extra_repo_def sp6 using cr[of "''nix-installer-action''" "''DeterminateSystems''"]
    by (simp add: record_result_def)
  have sp7: "split_owner_repo ''docker/build-push-action'' = Inr (''docker'', ''build-push-action'')" by code_simp
  have pe7: "process_extra_repo ?tr ?V ''docker/build-push-action'' acc =
      Some (Inr (fst acc, insert ''docker/build-push-action'' (snd acc)), [TagsUrl ''docker'' ''build-push-action'' 100 1])" for acc
    unfolding process_extra_repo_def sp7 using cr[of "''build-push-action''" "''docker''"]
    by (simp add: record_result_def)
  have sp8: "split_owner_repo ''tailscale/github-action'' = Inr (''tailscale'', ''github-action'')" by code_simp
  have pe8: "process_extra_repo ?tr ?V ''tailscale/github-action'' acc = Some (Inr (fst acc, insert ''tailscale/github-action'' (snd acc)), [])" for acc
    unfolding process_extra_repo_def sp8 by simp
  have e: "(if EXTRA_REPOS \<noteq> []
            then process_extra_repos ?tr ?U EXTRA_REPOS ?a3 (((?lrepos @ ?l1) @ []) @ ?l3)
            else Some (Inr ?a3, ((?lrepos @ ?l1) @ []) @ ?l3)) =
           Some (Inr ([(''actions/checkout'', ''v4'')], ?nu), ?log)"
    unfolding EXTRA_REPOS_def U by (simp add: pe0 pe1 pe2 pe3 pe4 pe5 pe6 pe7 pe8)
  have w: "write_outputs ?sub [(''actions/checkout'', ''v4'')] ?nu ?fs = (Completed, ?fs')"
    by code_simp
  have h: "run ?tr ?sub EXTRA_REPOS ?fs (Completed, ?fs', ?log)"
    by (rule run.writes[OF f o e w])
  note c = unversioned_cache_rebuilt[OF h, THEN conjunct1]
  show ?thesis by (intro conjI h c U)
qed

text \<open>
  Claim C9. Whenever the selector returns a tag, the returned string is the stripped form
  of some element of the input list, is itself free of surrounding whitespace and matches
  one of the three patterns. For the input tag " v3 " the result is "v3".
\<close>

theorem selector_returns_stripped_match:
  "(get_latest_version_tag tags = Inr (Some r) \<longrightarrow>
      (\<exists>t\<in>set tags. r = py_strip t) \<and> py_strip r = r \<and>
      (is_vinteger r \<or> is_integer r \<or> is_major_minor r)) \<and>
   get_latest_version_tag ['' v3 ''] = Inr (Some ''v3'')"
proof (intro conjI impI)
  assume "get_latest_version_tag tags = Inr (Some r)"
  then have "select_from_pools tags = Some r" by (rule get_latest_Inr_select)
  then have "\<exists>t\<in>set tags. r = py_strip t \<and> (is_vinteger r \<or> is_integer r \<or> is_major_minor r)"
    by (rule select_from_pools_Some)
  then show "\<exists>t\<in>set tags. r = py_strip t" and "is_vinteger r \<or> is_integer r \<or> is_major_minor r"
    by blast+
  then show "py_strip r = r" using py_strip_idem by metis
next
  show "get_latest_version_tag ['' v3 ''] = Inr (Some ''v3'')" by code_simp
qed

theorem selector_returns_stripped_match_witness:
  "get_latest_version_tag [''x'', '' 12 '', ''3''] = Inr (Some ''12'') \<and>
   (\<exists>t\<in>set [''x'', '' 12 '', ''3'']. ''12'' = py_strip t) \<and> py_strip ''12'' = ''12'' \<and>
   (is_vinteger ''12'' \<or> is_integer ''12'' \<or> is_major_minor ''12'')"
proof -
  have h: "get_latest_version_tag [''x'', '' 12 '', ''3''] = Inr (Some ''12'')" by code_simp
  note c = selector_returns_stripped_match[of "[''x'', '' 12 '', ''3'']" "''12''",
      THEN conjunct1, THEN mp, OF h]
  show ?thesis by (intro conjI h c[THEN conjunct1] c[THEN conjunct2, THEN conjunct1]
        c[THEN conjunct2, THEN conjunct2])
qed

text \<open>
  Claim C10. When no version record is accepted, the manifest content that is built and
  written to the versions file is exactly one newline character.
\<close>

theorem empty_manifest_is_one_newline:
  "build_versions_content (sort_versions []) = [CHR 0x0A] \<and>
   versions_file (snd (write_outputs sub [] new_unversioned fs)) = Some [CHR 0x0A]"
proof -
  have "build_versions_content (sort_versions []) = [CHR 0x0A]"
    by (simp add: build_versions_content_def sort_versions_def newline_def)
  then show ?thesis by (simp add: write_outputs_versions_file)
qed

end
